theory Spec2Isabelle
  imports Complex_Main "HOL-Library.Log_Nat"
begin

section \<open>Data model of ColorPaletteGenerator.vue\<close>

text \<open>
  The interface \<open>Color\<close> has three numeric fields and three optional ones. The component
  uses it in three shapes: a plain colour (the base colour, a shade), a palette entry (a
  colour with its \<open>shades\<close> array) and a selected shade (a colour with \<open>rowIndex\<close> and
  \<open>index\<close>). Every value the component stores in \<open>h\<close>, \<open>s\<close>, \<open>l\<close> is an integer (range
  sliders, results of \<open>Math.round\<close>), so the fields are \<open>int\<close>.
\<close>

record color =
  h :: int
  s :: int
  l :: int

record pcolor = color +
  shades :: "color list"

record shade = color +
  rowIndex :: nat
  index :: nat

text \<open>The five refs of the component: the state that the handlers read and write.\<close>

record state =
  baseColor :: color
  palette :: "pcolor list"
  selectedColor :: "int option"
  selectedShade :: "shade option"
  hexInput :: string

section \<open>Palette generation\<close>

text \<open>
  The remainder operator \<open>%\<close> of JavaScript truncates towards zero: the result has the sign
  of the dividend.
\<close>

definition js_rem :: "int \<Rightarrow> int \<Rightarrow> int" where
  "js_rem a b = sgn a * (\<bar>a\<bar> mod \<bar>b\<bar>)"

text \<open>
  The \<open>for\<close> loop of \<open>generatePalette\<close>: \<open>i\<close> is the counter, \<open>currentHue\<close> the running hue
  and \<open>newPalette\<close> the array built so far; \<open>base\<close> is the base colour it reads.
\<close>

function generatePalette_loop :: "color \<Rightarrow> nat \<Rightarrow> int \<Rightarrow> pcolor list \<Rightarrow> pcolor list" where
  "generatePalette_loop base i currentHue newPalette =
     (if i < 8 then
        generatePalette_loop base (i + 1)
          (if i = 1 then currentHue + 90
           else if i = 7 then currentHue + 60
           else currentHue + 30)
          (newPalette @ [\<lparr>h = js_rem currentHue 360, s = s base, l = l base, shades = []\<rparr>])
      else newPalette)"
  by pat_completeness auto
termination
  by (relation "measure (\<lambda>(base, i, c, p). 8 - i)") auto

declare generatePalette_loop.simps [simp del]

text \<open>The steps that the loop adds to the base hue, summed up to each index.\<close>

definition hueOffsets :: "int list" where
  "hueOffsets = [0, 30, 120, 150, 180, 210, 240, 270]"

definition generatePalette :: "state \<Rightarrow> state" where
  "generatePalette st =
     st\<lparr>palette := generatePalette_loop (baseColor st) 0 (h (baseColor st)) []\<rparr>"

section \<open>Shade generation and selection\<close>

definition lightnesses :: "int list" where
  "lightnesses = [80, 70, 60, 50, 40]"

text \<open>The three \<open>forEach\<close> passes that fill \<open>newShades\<close>.\<close>

definition newShades :: "('a color_scheme) \<Rightarrow> color list" where
  "newShades c =
     map (\<lambda>x. \<lparr>h = h c, s = s c, l = x\<rparr>) lightnesses
     @ map (\<lambda>x. \<lparr>h = h c, s = min 100 (s c + 20), l = x\<rparr>) lightnesses
     @ map (\<lambda>x. \<lparr>h = h c, s = max 0 (s c - 20), l = x\<rparr>) lightnesses"

text \<open>
  \<open>palette.value[index]\<close>: an array read gives \<open>undefined\<close> outside the array, and
  \<open>undefined\<close> is falsy; an entry is an object, which is truthy.
\<close>

definition palette_at :: "state \<Rightarrow> int \<Rightarrow> pcolor option" where
  "palette_at st i =
     (if 0 \<le> i \<and> i < int (length (palette st)) then Some (palette st ! nat i) else None)"

definition generateShades :: "('a color_scheme) \<Rightarrow> int \<Rightarrow> state \<Rightarrow> state" where
  "generateShades c i st =
     (case palette_at st i of
        Some e \<Rightarrow>
          st\<lparr>palette := (palette st)[nat i := e\<lparr>shades := newShades c\<rparr>],
             selectedColor := Some i,
             selectedShade := None\<rparr>
      | None \<Rightarrow> st)"

definition selectShade :: "shade \<Rightarrow> state \<Rightarrow> state" where
  "selectShade sh st = st\<lparr>selectedShade := Some sh\<rparr>"

section \<open>Hexadecimal output\<close>

definition hexDigit :: "int \<Rightarrow> char" where
  "hexDigit d = ''0123456789abcdef'' ! nat d"

text \<open>
  \<open>Number.prototype.toString(16)\<close> on an integer: the digits of the absolute value, most
  significant first, after a minus sign for a negative number.
\<close>

function digits16 :: "int \<Rightarrow> string" where
  "digits16 n = (if n < 16 then [hexDigit n] else digits16 (n div 16) @ [hexDigit (n mod 16)])"
  by pat_completeness auto
termination
  by (relation "measure nat") auto

declare digits16.simps [simp del]

definition toString16 :: "int \<Rightarrow> string" where
  "toString16 c = (if c < 0 then CHR ''-'' # digits16 (- c) else digits16 c)"

definition toHex :: "int \<Rightarrow> string" where
  "toHex c = (let hex = toString16 c in if length hex = 1 then ''0'' @ hex else hex)"

definition RGBToHex :: "int \<Rightarrow> int \<Rightarrow> int \<Rightarrow> string" where
  "RGBToHex cr cg cb = ''#'' @ toHex cr @ toHex cg @ toHex cb"

section \<open>Numbers\<close>

text \<open>
  A JavaScript number is an IEEE 754 binary64 value. A finite one is modelled by the
  rational it denotes, and an arithmetic operation returns the exact result rounded to
  the nearest value with a 53-bit significand, ties to the even significand. The range of
  the exponent is not modelled (no overflow, no subnormal numbers): the values in the
  conversions below are at most 360 in magnitude, and those that are not zero come from a
  few operations on integers up to 360, far above the subnormal range. \<open>NaN\<close> only arises
  from \<open>parseInt\<close> and is modelled there, as \<open>None\<close>.
\<close>

definition ilog2 :: "rat \<Rightarrow> int" where
  \<comment> \<open>the exponent \<open>e\<close> with \<open>2\<^sup>e \<le> |x| < 2\<^sup>e\<^sup>+\<^sup>1\<close>, for \<open>x \<noteq> 0\<close>\<close>
  "ilog2 x = (let (p, q) = quotient_of \<bar>x\<bar>; e = bitlen p - bitlen q
              in if 2 powi e \<le> \<bar>x\<bar> then e else e - 1)"

definition rne :: "rat \<Rightarrow> int" where
  \<comment> \<open>round to the nearest integer, ties to even\<close>
  "rne m = (let n = \<lfloor>m\<rfloor>; d = m - of_int n
            in if d < 1 / 2 then n else if 1 / 2 < d then n + 1
               else if even n then n else n + 1)"

definition fl :: "rat \<Rightarrow> rat" where
  "fl x = (if x = 0 then 0
           else let u = 2 powi (ilog2 x - 52)
                in sgn x * of_int (rne (\<bar>x\<bar> / u)) * u)"

definition fadd :: "rat \<Rightarrow> rat \<Rightarrow> rat" where
  "fadd x y = fl (x + y)"

definition fsub :: "rat \<Rightarrow> rat \<Rightarrow> rat" where
  "fsub x y = fl (x - y)"

definition fmul :: "rat \<Rightarrow> rat \<Rightarrow> rat" where
  "fmul x y = fl (x * y)"

definition fdiv :: "rat \<Rightarrow> rat \<Rightarrow> rat" where
  "fdiv x y = fl (x / y)"

definition trunc :: "rat \<Rightarrow> int" where
  "trunc q = (if 0 \<le> q then \<lfloor>q\<rfloor> else \<lceil>q\<rceil>)"

definition frem :: "rat \<Rightarrow> rat \<Rightarrow> rat" where
  \<comment> \<open>\<open>x % y\<close>: the remainder of the truncated quotient; it is exact, so nothing is rounded\<close>
  "frem x y = x - y * of_int (trunc (x / y))"

definition Math_round :: "rat \<Rightarrow> int" where
  \<comment> \<open>the nearest integer, a tie going up\<close>
  "Math_round x = \<lfloor>x + 1 / 2\<rfloor>"

section \<open>Colour conversion\<close>

record rgb =
  r :: int
  g :: int
  b :: int

definition HSLToRGB :: "int \<Rightarrow> int \<Rightarrow> int \<Rightarrow> rgb" where
  "HSLToRGB h s l =
     (let s1 = fdiv (of_int s) 100;
          l1 = fdiv (of_int l) 100;
          k = (\<lambda>n. frem (fadd n (fdiv (of_int h) 30)) 12);
          a = fmul s1 (min l1 (fsub 1 l1));
          f = (\<lambda>n. fsub l1 (fmul a (max (- 1) (min (fsub (k n) 3) (min (fsub 9 (k n)) 1)))))
      in \<lparr>r = Math_round (fmul 255 (f 0)),
          g = Math_round (fmul 255 (f 8)),
          b = Math_round (fmul 255 (f 4))\<rparr>)"
  for h s l

text \<open>
  The number that \<open>HSLToRGB\<close> rounds for a channel: \<open>255 * f(n)\<close>, with \<open>n\<close> being 0 for red,
  8 for green and 4 for blue.
\<close>

definition channel :: "rat \<Rightarrow> int \<Rightarrow> int \<Rightarrow> int \<Rightarrow> rat" where
  "channel n H S L =
     fmul 255 (fsub (fdiv (of_int L) 100)
       (fmul (fmul (fdiv (of_int S) 100) (min (fdiv (of_int L) 100) (fsub 1 (fdiv (of_int L) 100))))
          (max (- 1) (min (fsub (frem (fadd n (fdiv (of_int H) 30)) 12) 3)
             (min (fsub 9 (frem (fadd n (fdiv (of_int H) 30)) 12)) 1)))))"

subsection \<open>Reading a hexadecimal colour\<close>

definition isHexDigit :: "char \<Rightarrow> bool" where
  "isHexDigit c = (c \<in> set ''0123456789ABCDEFabcdef'')"

definition hexValue :: "char \<Rightarrow> int" where
  "hexValue c =
     (let n = int (of_char c)
      in if n \<le> 57 then n - 48 else if n \<le> 70 then n - 55 else n - 87)"

text \<open>
  The white space that \<open>parseInt\<close> skips, among the code units below 256: tab, line feed,
  vertical tab, form feed, carriage return, space and no-break space.
\<close>

definition isWhiteSpace :: "char \<Rightarrow> bool" where
  "isWhiteSpace c = (of_char c \<in> {9, 10, 11, 12, 13, 32, 160 :: nat})"

text \<open>
  \<open>parseInt(str, 16)\<close>: skip leading white space, read a sign, skip a prefix \<open>0x\<close> or
  \<open>0X\<close>, and read hexadecimal digits as far as they go. With no digit the result is
  \<open>NaN\<close>, here \<open>None\<close>.
\<close>

definition parseInt16 :: "string \<Rightarrow> int option" where
  "parseInt16 str =
     (let t = dropWhile isWhiteSpace str;
          sign = (if take 1 t = ''-'' then - 1 else 1);
          t = (if take 1 t = ''-'' \<or> take 1 t = ''+'' then drop 1 t else t);
          t = (if take 2 t = ''0x'' \<or> take 2 t = ''0X'' then drop 2 t else t);
          z = takeWhile isHexDigit t
      in if z = [] then None
         else Some (sign * foldl (\<lambda>acc c. 16 * acc + hexValue c) 0 z))"

definition slice :: "nat \<Rightarrow> nat \<Rightarrow> string \<Rightarrow> string" where
  \<comment> \<open>\<open>str.slice(i, j)\<close> for \<open>0 \<le> i \<le> j\<close>\<close>
  "slice i j str = take (j - i) (drop i str)"

text \<open>
  The body of \<open>hexToHSL\<close> after the three channels are parsed; \<open>cr\<close>, \<open>cg\<close>, \<open>cb\<close> are
  the integers that \<open>parseInt\<close> returned. The \<open>switch\<close> takes the first of the cases \<open>r\<close>,
  \<open>g\<close>, \<open>b\<close> that is equal to \<open>max\<close>.
\<close>

definition RGBToHSL :: "int \<Rightarrow> int \<Rightarrow> int \<Rightarrow> color" where
  "RGBToHSL cr cg cb =
     (let r = fdiv (of_int cr) 255;
          g = fdiv (of_int cg) 255;
          b = fdiv (of_int cb) 255;
          mx = max (max r g) b;
          mn = min (min r g) b;
          l = fdiv (fadd mx mn) 2
      in if mx = mn then \<lparr>h = Math_round (fmul 0 360), s = Math_round (fmul 0 100),
                            l = Math_round (fmul l 100)\<rparr>
         else
           let d = fsub mx mn;
               s = (if 1 / 2 < l then fdiv d (fsub (fsub 2 mx) mn) else fdiv d (fadd mx mn));
               h = (if mx = r then fadd (fdiv (fsub g b) d) (if g < b then 6 else 0)
                    else if mx = g then fadd (fdiv (fsub b r) d) 2
                    else fadd (fdiv (fsub r g) d) 4);
               h = fdiv h 6
           in \<lparr>h = Math_round (fmul h 360), s = Math_round (fmul s 100),
                l = Math_round (fmul l 100)\<rparr>)"

text \<open>
  \<open>hexToHSL\<close>: drop one leading \<open>#\<close>, parse the three pairs of characters. When a pair
  does not parse, the source computes with \<open>NaN\<close> and returns an object with \<open>NaN\<close> fields;
  the model returns \<open>None\<close> for it. The only caller, \<open>handleHexInput\<close>, tests the pattern
  first, and then all three pairs parse (lemma \<open>hexToHSL_hexPattern\<close>).
\<close>

definition hexToHSL :: "string \<Rightarrow> color option" where
  "hexToHSL hex =
     (let hex = (if take 1 hex = ''#'' then drop 1 hex else hex)
      in case (parseInt16 (slice 0 2 hex), parseInt16 (slice 2 4 hex), parseInt16 (slice 4 6 hex)) of
           (Some cr, Some cg, Some cb) \<Rightarrow> Some (RGBToHSL cr cg cb)
         | _ \<Rightarrow> None)"

text \<open>The three channels that six hexadecimal digits denote.\<close>

definition channels :: "string \<Rightarrow> int \<times> int \<times> int" where
  "channels t = (16 * hexValue (t ! 0) + hexValue (t ! 1),
                 16 * hexValue (t ! 2) + hexValue (t ! 3),
                 16 * hexValue (t ! 4) + hexValue (t ! 5))"

section \<open>Editing the base colour\<close>

text \<open>The test \<open>/^#?[0-9A-Fa-f]{6}$/\<close>: an optional \<open>#\<close>, then six hexadecimal digits, then the end.\<close>

definition hexPattern :: "string \<Rightarrow> bool" where
  "hexPattern str =
     (let t = (if take 1 str = ''#'' then drop 1 str else str)
      in length t = 6 \<and> list_all isHexDigit t)"

text \<open>
  The watcher on \<open>baseColor\<close> runs \<open>generatePalette\<close> once after a handler has changed a
  field of the base colour; a write of the value a field already has does not trigger it.
  \<open>assignBase c\<close> is \<open>Object.assign(baseColor, c)\<close>, or the write of one field by a slider,
  followed by the watcher.
\<close>

definition assignBase :: "color \<Rightarrow> state \<Rightarrow> state" where
  "assignBase c st =
     (if c = baseColor st then st else generatePalette (st\<lparr>baseColor := c\<rparr>))"

definition setHue :: "int \<Rightarrow> state \<Rightarrow> state" where
  "setHue v st = assignBase ((baseColor st)\<lparr>h := v\<rparr>) st"

definition setSaturation :: "int \<Rightarrow> state \<Rightarrow> state" where
  "setSaturation v st = assignBase ((baseColor st)\<lparr>s := v\<rparr>) st"

definition setLightness :: "int \<Rightarrow> state \<Rightarrow> state" where
  "setLightness v st = assignBase ((baseColor st)\<lparr>l := v\<rparr>) st"

definition handleHexInput :: "state \<Rightarrow> state" where
  "handleHexInput st =
     (if hexPattern (hexInput st) then
        (case hexToHSL (hexInput st) of
           Some hsl \<Rightarrow> assignBase hsl st
         | None \<Rightarrow> st)
      else st)"

text \<open>The state after setup: the watcher is \<open>immediate\<close>, so the palette is generated once.\<close>

definition init :: state where
  "init = generatePalette
     \<lparr>baseColor = \<lparr>h = 45, s = 70, l = 60\<rparr>, palette = [], selectedColor = None,
      selectedShade = None, hexInput = []\<rparr>"

text \<open>
  A state of the running component: after setup, a click on palette colour 3 and a click
  on the third shade of the row of higher saturation.
\<close>

definition st_shade_selected :: state where
  "st_shade_selected =
     selectShade \<lparr>h = 195, s = 90, l = 60, rowIndex = 1, index = 2\<rparr>
       (generateShades (palette init ! 3) 3 init)"


section \<open>The round trip\<close>

text \<open>A colour written by \<open>RGBToHex\<close>, read back by \<open>hexToHSL\<close> and converted by \<open>HSLToRGB\<close>.\<close>

definition roundTrip :: "int \<Rightarrow> int \<Rightarrow> int \<Rightarrow> rgb option" where
  "roundTrip cr cg cb =
     (case hexToHSL (RGBToHex cr cg cb) of
        None \<Rightarrow> None
      | Some c \<Rightarrow> Some (HSLToRGB (h c) (s c) (l c)))"

section \<open>Exact quantities\<close>

text \<open>
  The quantities that the conversions approximate, in exact rational arithmetic. \<open>eps\<close> is
  the largest relative error of one rounding to binary64. For channels with maximum \<open>M\<close>
  and minimum \<open>m\<close>: the lightness, the saturation, and the hue as a sixth of a turn (the
  hue in degrees is 60 times it). \<open>wave\<close> is the piecewise linear function of period 12 in
  \<open>HSLToRGB\<close>, and \<open>chanExact\<close> the channel as a fraction of 255 that \<open>HSLToRGB\<close> computes,
  from the hue divided by 30 and the saturation and lightness as fractions of 1.
\<close>

definition eps :: rat where
  "eps = 1 / 2 ^ 53"

definition lightExact :: "int \<Rightarrow> int \<Rightarrow> rat" where
  "lightExact M m = of_int (M + m) / 510"

definition satExact :: "int \<Rightarrow> int \<Rightarrow> rat" where
  "satExact M m = of_int (M - m) / (if M + m \<le> 255 then of_int (M + m) else of_int (510 - M - m))"

definition hueExact :: "int \<Rightarrow> int \<Rightarrow> int \<Rightarrow> rat" where
  "hueExact cr cg cb =
     (let M = max (max cr cg) cb; m = min (min cr cg) cb; D = of_int (M - m)
      in if cr = M then of_int (cg - cb) / D + (if cg < cb then 6 else 0)
         else if cg = M then of_int (cb - cr) / D + 2
         else of_int (cr - cg) / D + 4)"

definition wave :: "rat \<Rightarrow> rat" where
  "wave y = max (- 1) (min (frem y 12 - 3) (min (9 - frem y 12) 1))"

definition chanExact :: "rat \<Rightarrow> rat \<Rightarrow> rat \<Rightarrow> rat \<Rightarrow> rat" where
  "chanExact n hq s1 l1 = l1 - s1 * min l1 (1 - l1) * wave (n + hq)"

section \<open>The palette\<close>

lemma js_rem_nonneg: "0 \<le> a \<Longrightarrow> js_rem a 360 = a mod 360"
  by (cases "a = 0") (simp_all add: js_rem_def)

lemma generatePalette_loop_unfold:
  "generatePalette_loop base 0 c [] =
     map (\<lambda>d. \<lparr>h = js_rem (c + d) 360, s = s base, l = l base, shades = []\<rparr>) hueOffsets"
  by (simp add: generatePalette_loop.simps hueOffsets_def add.assoc)

lemma palette_generatePalette:
  "palette (generatePalette st) =
     map (\<lambda>d. \<lparr>h = js_rem (h (baseColor st) + d) 360, s = s (baseColor st),
                l = l (baseColor st), shades = []\<rparr>) hueOffsets"
  by (simp add: generatePalette_def generatePalette_loop_unfold)

lemma baseColor_init: "baseColor init = \<lparr>h = 45, s = 70, l = 60\<rparr>"
  by (simp add: init_def generatePalette_def)

lemma palette_init:
  "palette init = map (\<lambda>d. \<lparr>h = js_rem (45 + d) 360, s = 70, l = 60, shades = []\<rparr>) hueOffsets"
  unfolding init_def by (simp add: palette_generatePalette)

lemma length_palette_init: "length (palette init) = 8"
  by (simp add: palette_init hueOffsets_def)

lemma palette_at_init_3: "palette_at init 3 = Some \<lparr>h = 195, s = 70, l = 60, shades = []\<rparr>"
  by (simp add: palette_at_def palette_init hueOffsets_def js_rem_def)

text \<open>
  Claim C1. \<open>generatePalette\<close> produces exactly 8 colours, each with the saturation and
  the lightness of the base colour, and the hue at index \<open>i\<close> is the base hue plus the
  \<open>i\<close>-th of the offsets 0, 30, 120, 150, 180, 210, 240, 270, reduced by \<open>% 360\<close>. For a
  base hue that is not negative (every hue that a slider or \<open>hexToHSL\<close> gives) this is
  the remainder modulo 360; for the base colour \<open>{h: 45, s: 70, l: 60}\<close> the hues are 45,
  75, 165, 195, 225, 255, 285, 315.
\<close>

theorem generatePalette_hues:
  "length (palette (generatePalette st)) = 8 \<and>
   map s (palette (generatePalette st)) = replicate 8 (s (baseColor st)) \<and>
   map l (palette (generatePalette st)) = replicate 8 (l (baseColor st)) \<and>
   map h (palette (generatePalette st)) = map (\<lambda>d. js_rem (h (baseColor st) + d) 360) hueOffsets \<and>
   (0 \<le> h (baseColor st) \<longrightarrow>
      map h (palette (generatePalette st)) = map (\<lambda>d. (h (baseColor st) + d) mod 360) hueOffsets) \<and>
   (baseColor st = \<lparr>h = 45, s = 70, l = 60\<rparr> \<longrightarrow>
      map h (palette (generatePalette st)) = [45, 75, 165, 195, 225, 255, 285, 315])"
proof -
  let ?p = "palette (generatePalette st)" and ?b = "baseColor st"
  have len: "length ?p = 8"
    by (simp add: palette_generatePalette hueOffsets_def)
  have sat: "map s ?p = replicate 8 (s ?b)" and lig: "map l ?p = replicate 8 (l ?b)"
    by (simp_all add: palette_generatePalette hueOffsets_def numeral_eq_Suc)
  have hue: "map h ?p = map (\<lambda>d. js_rem (h ?b + d) 360) hueOffsets"
    by (simp add: palette_generatePalette hueOffsets_def)
  have nonneg: "map h ?p = map (\<lambda>d. (h ?b + d) mod 360) hueOffsets" if "0 \<le> h ?b"
    unfolding hue using that by (simp add: hueOffsets_def js_rem_nonneg)
  have ex: "map h ?p = [45, 75, 165, 195, 225, 255, 285, 315]" if "?b = \<lparr>h = 45, s = 70, l = 60\<rparr>"
    unfolding hue using that by (simp add: hueOffsets_def js_rem_def)
  from len sat lig hue nonneg ex show ?thesis by blast
qed

theorem generatePalette_hues_witness:
  "0 \<le> h (baseColor init) \<and> baseColor init = \<lparr>h = 45, s = 70, l = 60\<rparr> \<and>
   map h (palette (generatePalette init)) = map (\<lambda>d. (h (baseColor init) + d) mod 360) hueOffsets \<and>
   map h (palette (generatePalette init)) = [45, 75, 165, 195, 225, 255, 285, 315]"
proof -
  have "0 \<le> h (baseColor init)"
    by (simp add: baseColor_init)
  with baseColor_init generatePalette_hues [of init] show ?thesis
    by blast
qed

section \<open>The shades\<close>

lemma newShades_unfold:
  "newShades c =
     [\<lparr>h = h c, s = s c, l = 80\<rparr>, \<lparr>h = h c, s = s c, l = 70\<rparr>, \<lparr>h = h c, s = s c, l = 60\<rparr>,
      \<lparr>h = h c, s = s c, l = 50\<rparr>, \<lparr>h = h c, s = s c, l = 40\<rparr>,
      \<lparr>h = h c, s = min 100 (s c + 20), l = 80\<rparr>, \<lparr>h = h c, s = min 100 (s c + 20), l = 70\<rparr>,
      \<lparr>h = h c, s = min 100 (s c + 20), l = 60\<rparr>, \<lparr>h = h c, s = min 100 (s c + 20), l = 50\<rparr>,
      \<lparr>h = h c, s = min 100 (s c + 20), l = 40\<rparr>,
      \<lparr>h = h c, s = max 0 (s c - 20), l = 80\<rparr>, \<lparr>h = h c, s = max 0 (s c - 20), l = 70\<rparr>,
      \<lparr>h = h c, s = max 0 (s c - 20), l = 60\<rparr>, \<lparr>h = h c, s = max 0 (s c - 20), l = 50\<rparr>,
      \<lparr>h = h c, s = max 0 (s c - 20), l = 40\<rparr>]"
  by (simp add: newShades_def lightnesses_def)

lemma shades_generateShades:
  "palette_at st i = Some e \<Longrightarrow> shades (palette (generateShades c i st) ! nat i) = newShades c"
  by (auto simp: generateShades_def palette_at_def split: if_splits)

lemma length_palette_generateShades [simp]:
  "length (palette (generateShades c i st)) = length (palette st)"
  by (simp add: generateShades_def split: option.splits)

lemma st_shade_selected_simps:
  "selectedColor st_shade_selected = Some 3"
  "selectedShade st_shade_selected = Some \<lparr>h = 195, s = 90, l = 60, rowIndex = 1, index = 2\<rparr>"
  "length (palette st_shade_selected) = 8"
  "baseColor st_shade_selected = \<lparr>h = 45, s = 70, l = 60\<rparr>"
  by (simp_all add: st_shade_selected_def selectShade_def generateShades_def palette_at_init_3
      length_palette_init baseColor_init)

text \<open>
  Claim C2. \<open>generateShades\<close> builds exactly 15 colours, all with the hue of the colour it
  is given. Entries 0 to 4 have its saturation \<open>s\<close>, entries 5 to 9 have \<open>min(100, s + 20)\<close>
  and entries 10 to 14 have \<open>max(0, s - 20)\<close>; in each group of five the lightnesses are
  80, 70, 60, 50, 40 in this order. When the palette has an entry at the index, these 15
  colours become its \<open>shades\<close>.
\<close>

theorem generateShades_fifteen:
  "length (newShades c) = 15 \<and>
   map h (newShades c) = replicate 15 (h c) \<and>
   map s (take 5 (newShades c)) = replicate 5 (s c) \<and>
   map s (take 5 (drop 5 (newShades c))) = replicate 5 (min 100 (s c + 20)) \<and>
   map s (drop 10 (newShades c)) = replicate 5 (max 0 (s c - 20)) \<and>
   map l (take 5 (newShades c)) = [80, 70, 60, 50, 40] \<and>
   map l (take 5 (drop 5 (newShades c))) = [80, 70, 60, 50, 40] \<and>
   map l (drop 10 (newShades c)) = [80, 70, 60, 50, 40] \<and>
   (\<forall>e. palette_at st i = Some e \<longrightarrow>
      shades (palette (generateShades c i st) ! nat i) = newShades c)"
proof -
  have "length (newShades c) = 15"
    by (simp add: newShades_unfold)
  moreover have "map h (newShades c) = replicate 15 (h c)"
    by (simp add: newShades_unfold numeral_eq_Suc)
  moreover have "map s (take 5 (newShades c)) = replicate 5 (s c)"
    "map s (take 5 (drop 5 (newShades c))) = replicate 5 (min 100 (s c + 20))"
    "map s (drop 10 (newShades c)) = replicate 5 (max 0 (s c - 20))"
    by (simp_all add: newShades_unfold numeral_eq_Suc)
  moreover have "map l (take 5 (newShades c)) = [80, 70, 60, 50, 40]"
    "map l (take 5 (drop 5 (newShades c))) = [80, 70, 60, 50, 40]"
    "map l (drop 10 (newShades c)) = [80, 70, 60, 50, 40]"
    by (simp_all add: newShades_unfold numeral_eq_Suc)
  ultimately show ?thesis
    using shades_generateShades [of st i _ c] by blast
qed

theorem generateShades_fifteen_witness:
  "palette_at init 3 = Some \<lparr>h = 195, s = 70, l = 60, shades = []\<rparr> \<and>
   map s (shades (palette (generateShades \<lparr>h = 200, s = 90, l = 60\<rparr> 3 init) ! nat 3))
     = [90, 90, 90, 90, 90, 100, 100, 100, 100, 100, 70, 70, 70, 70, 70]"
proof -
  have "shades (palette (generateShades \<lparr>h = 200, s = 90, l = 60\<rparr> 3 init) ! nat 3)
        = newShades \<lparr>h = 200, s = 90, l = 60\<rparr>"
    using generateShades_fifteen [of "\<lparr>h = 200, s = 90, l = 60\<rparr>" init 3] palette_at_init_3
    by blast
  then show ?thesis
    by (simp add: palette_at_init_3 newShades_unfold)
qed

section \<open>The selection\<close>

text \<open>
  Claim C7. When the palette has an entry at index \<open>i\<close>, \<open>generateShades\<close> called for \<open>i\<close>
  sets the selected palette index to \<open>i\<close> and the selected shade to none, whatever shade
  was selected before.
\<close>

theorem generateShades_selects:
  "palette_at st i = Some e \<Longrightarrow>
   selectedColor (generateShades c i st) = Some i \<and> selectedShade (generateShades c i st) = None"
  by (simp add: generateShades_def)

theorem generateShades_selects_witness:
  "palette_at st_shade_selected 5 = Some (palette st_shade_selected ! 5) \<and>
   selectedShade st_shade_selected \<noteq> None \<and>
   selectedColor (generateShades (palette st_shade_selected ! 5) 5 st_shade_selected) = Some 5 \<and>
   selectedShade (generateShades (palette st_shade_selected ! 5) 5 st_shade_selected) = None"
proof -
  have at: "palette_at st_shade_selected 5 = Some (palette st_shade_selected ! 5)"
    by (simp add: palette_at_def st_shade_selected_simps)
  from generateShades_selects [OF at] at show ?thesis
    by (simp add: st_shade_selected_simps)
qed

text \<open>
  Claim C10. When the palette has no entry at index \<open>i\<close> (\<open>i\<close> negative, \<open>i\<close> at least the
  length of the palette, or the palette empty), \<open>generateShades(c, i)\<close> returns the state
  it was given: the palette, the selected index and the selected shade keep their values.
  The model has no error result, as the source has no \<open>throw\<close> on this path.
\<close>

theorem generateShades_no_entry:
  "i < 0 \<or> int (length (palette st)) \<le> i \<or> palette st = [] \<Longrightarrow> generateShades c i st = st"
  by (auto simp: generateShades_def palette_at_def)

theorem generateShades_no_entry_witness:
  "generateShades \<lparr>h = 1, s = 2, l = 3\<rparr> (- 1) st_shade_selected = st_shade_selected \<and>
   generateShades \<lparr>h = 1, s = 2, l = 3\<rparr> 8 st_shade_selected = st_shade_selected"
  using generateShades_no_entry [of "- 1" st_shade_selected "\<lparr>h = 1, s = 2, l = 3\<rparr>"]
    generateShades_no_entry [of 8 st_shade_selected "\<lparr>h = 1, s = 2, l = 3\<rparr>"]
  by (simp add: st_shade_selected_simps)

section \<open>Hexadecimal output\<close>

lemma digits16_small: "n < 16 \<Longrightarrow> digits16 n = [hexDigit n]"
  by (simp add: digits16.simps)

lemma digits16_byte: "16 \<le> n \<Longrightarrow> n \<le> 255 \<Longrightarrow> digits16 n = [hexDigit (n div 16), hexDigit (n mod 16)]"
  by (subst digits16.simps) (simp add: digits16_small)

lemma hexDigit_0: "hexDigit 0 = CHR ''0''"
  by (simp add: hexDigit_def)

lemma toHex_byte:
  assumes "0 \<le> c" and "c \<le> 255"
  shows "toHex c = [hexDigit (c div 16), hexDigit (c mod 16)]"
proof (cases "c < 16")
  case True
  with assms show ?thesis
    by (simp add: toHex_def toString16_def digits16_small hexDigit_0)
next
  case False
  with assms show ?thesis
    by (simp add: toHex_def toString16_def digits16_byte)
qed

lemma hexDigit_lower: "0 \<le> d \<Longrightarrow> d < 16 \<Longrightarrow> hexDigit d \<in> set ''0123456789abcdef''"
  unfolding hexDigit_def by (rule nth_mem) simp

text \<open>
  Claim C9. For channels between 0 and 255, \<open>RGBToHex\<close> returns 7 characters: \<open>#\<close>, then
  for \<open>r\<close>, \<open>g\<close>, \<open>b\<close> in this order the two hexadecimal digits of the channel, the
  sixteens first (so a channel below 16 starts with \<open>0\<close>), each digit taken from
  \<open>0123456789abcdef\<close>.
\<close>

theorem RGBToHex_format:
  assumes "0 \<le> cr \<and> cr \<le> 255" and "0 \<le> cg \<and> cg \<le> 255" and "0 \<le> cb \<and> cb \<le> 255"
  shows "RGBToHex cr cg cb =
           [CHR ''#'', hexDigit (cr div 16), hexDigit (cr mod 16),
            hexDigit (cg div 16), hexDigit (cg mod 16),
            hexDigit (cb div 16), hexDigit (cb mod 16)] \<and>
         length (RGBToHex cr cg cb) = 7 \<and>
         set (tl (RGBToHex cr cg cb)) \<subseteq> set ''0123456789abcdef''"
proof -
  have eq: "RGBToHex cr cg cb =
           [CHR ''#'', hexDigit (cr div 16), hexDigit (cr mod 16),
            hexDigit (cg div 16), hexDigit (cg mod 16),
            hexDigit (cb div 16), hexDigit (cb mod 16)]"
    using assms by (simp add: RGBToHex_def toHex_byte)
  have "hexDigit (c div 16) \<in> set ''0123456789abcdef'' \<and> hexDigit (c mod 16) \<in> set ''0123456789abcdef''"
    if "0 \<le> c \<and> c \<le> 255" for c
    using that by (intro conjI hexDigit_lower) auto
  from this [OF assms(1)] this [OF assms(2)] this [OF assms(3)] show ?thesis
    unfolding eq by simp
qed

theorem RGBToHex_format_witness:
  "RGBToHex 2 228 230 = ''#02e4e6'' \<and> RGBToHex 255 0 10 = ''#ff000a''"
  using RGBToHex_format [of 2 228 230] RGBToHex_format [of 255 0 10]
  by (simp add: hexDigit_def)

section \<open>Hexadecimal input\<close>

lemma isHexDigit_cases:
  "isHexDigit c \<Longrightarrow>
   \<not> isWhiteSpace c \<and> c \<noteq> CHR ''-'' \<and> c \<noteq> CHR ''+'' \<and> c \<noteq> CHR ''x'' \<and> c \<noteq> CHR ''X''
   \<and> c \<noteq> CHR ''#'' \<and> 0 \<le> hexValue c \<and> hexValue c \<le> 15"
  by (auto simp: isHexDigit_def isWhiteSpace_def hexValue_def)

lemma parseInt16_pair:
  assumes "isHexDigit c1" and "isHexDigit c2"
  shows "parseInt16 [c1, c2] = Some (16 * hexValue c1 + hexValue c2)"
  using assms isHexDigit_cases [OF assms(1)] isHexDigit_cases [OF assms(2)]
  by (simp add: parseInt16_def)

lemma length6E:
  assumes "length t = 6"
  obtains c1 c2 c3 c4 c5 c6 where "t = [c1, c2, c3, c4, c5, c6]"
  using assms by (auto simp: length_Suc_conv numeral_eq_Suc)

lemma hexToHSL_digits:
  assumes "length t = 6" and "list_all isHexDigit t"
  shows "hexToHSL t = Some (case channels t of (cr, cg, cb) \<Rightarrow> RGBToHSL cr cg cb)"
    and "hexToHSL (CHR ''#'' # t) = hexToHSL t"
    and "hexPattern t" and "hexPattern (CHR ''#'' # t)"
proof -
  from assms(1) obtain c1 c2 c3 c4 c5 c6 where t: "t = [c1, c2, c3, c4, c5, c6]"
    by (rule length6E)
  with assms(2) have d: "isHexDigit c1" "isHexDigit c2" "isHexDigit c3" "isHexDigit c4"
    "isHexDigit c5" "isHexDigit c6"
    by simp_all
  have ne: "c1 \<noteq> CHR ''#''"
    using isHexDigit_cases [OF d(1)] by simp
  show "hexToHSL t = Some (case channels t of (cr, cg, cb) \<Rightarrow> RGBToHSL cr cg cb)"
    using d ne by (simp add: t hexToHSL_def slice_def parseInt16_pair channels_def)
  show "hexToHSL (CHR ''#'' # t) = hexToHSL t"
    using ne by (simp add: t hexToHSL_def)
  show "hexPattern t" "hexPattern (CHR ''#'' # t)"
    using d ne by (simp_all add: t hexPattern_def)
qed

lemma hexPattern_cases:
  assumes "hexPattern str"
  obtains t where "length t = 6" and "list_all isHexDigit t" and "str = t \<or> str = CHR ''#'' # t"
proof (cases "take 1 str = ''#''")
  case True
  then have "str = CHR ''#'' # drop 1 str"
    by (cases str) auto
  with assms True that [of "drop 1 str"] show ?thesis
    by (simp add: hexPattern_def)
next
  case False
  with assms that [of str] show ?thesis
    by (simp add: hexPattern_def)
qed


text \<open>
  Claim C5. When the text of the input does not match the pattern, \<open>handleHexInput\<close>
  returns the state it was given, base colour included, and there is no error result;
  \<open>GGGGGG\<close>, \<open>#12345\<close> and \<open>1234567\<close> do not match. For six hexadecimal digits \<open>x\<close>,
  both \<open>#x\<close> and \<open>x\<close> match, \<open>hexToHSL\<close> returns the same colour for both, and the base
  colour after \<open>handleHexInput\<close> is that colour.
\<close>

theorem handleHexInput_validation:
  "(\<not> hexPattern (hexInput st) \<longrightarrow> handleHexInput st = st) \<and>
   \<not> hexPattern ''GGGGGG'' \<and> \<not> hexPattern ''#12345'' \<and> \<not> hexPattern ''1234567'' \<and>
   (length x = 6 \<and> list_all isHexDigit x \<longrightarrow>
      hexPattern (''#'' @ x) \<and> hexPattern x \<and>
      hexToHSL (''#'' @ x) = hexToHSL x \<and> hexToHSL x \<noteq> None \<and>
      baseColor (handleHexInput (st\<lparr>hexInput := ''#'' @ x\<rparr>))
        = baseColor (handleHexInput (st\<lparr>hexInput := x\<rparr>)) \<and>
      Some (baseColor (handleHexInput (st\<lparr>hexInput := x\<rparr>))) = hexToHSL x)"
proof -
  have rej: "handleHexInput st = st" if "\<not> hexPattern (hexInput st)"
    using that by (simp add: handleHexInput_def)
  have ex: "\<not> hexPattern ''GGGGGG''" "\<not> hexPattern ''#12345''" "\<not> hexPattern ''1234567''"
    by (simp_all add: hexPattern_def isHexDigit_def)
  have acc: "hexPattern (''#'' @ x) \<and> hexPattern x \<and>
      hexToHSL (''#'' @ x) = hexToHSL x \<and> hexToHSL x \<noteq> None \<and>
      baseColor (handleHexInput (st\<lparr>hexInput := ''#'' @ x\<rparr>))
        = baseColor (handleHexInput (st\<lparr>hexInput := x\<rparr>)) \<and>
      Some (baseColor (handleHexInput (st\<lparr>hexInput := x\<rparr>))) = hexToHSL x"
    if "length x = 6" and "list_all isHexDigit x"
  proof -
    note f = hexToHSL_digits [OF that]
    obtain c where c: "hexToHSL x = Some c"
      using f(1) by blast
    have "baseColor (handleHexInput (st'\<lparr>hexInput := y\<rparr>)) = c"
      if "hexPattern y" and "hexToHSL y = Some c" for y and st' :: state
      using that by (simp add: handleHexInput_def assignBase_def generatePalette_def)
    from this [of x st] this [of "''#'' @ x" st] f c show ?thesis
      by simp
  qed
  from rej ex acc show ?thesis
    by blast
qed

theorem handleHexInput_validation_witness:
  "handleHexInput (init\<lparr>hexInput := ''#12345''\<rparr>) = init\<lparr>hexInput := ''#12345''\<rparr> \<and>
   hexPattern ''#aabbcc'' \<and> hexPattern ''aabbcc'' \<and> hexToHSL ''#aabbcc'' = hexToHSL ''aabbcc'' \<and>
   baseColor (handleHexInput (init\<lparr>hexInput := ''#aabbcc''\<rparr>))
     = baseColor (handleHexInput (init\<lparr>hexInput := ''aabbcc''\<rparr>))"
proof -
  have 1: "\<not> hexPattern (hexInput (init\<lparr>hexInput := ''#12345''\<rparr>))"
    by (simp add: hexPattern_def)
  have 2: "length ''aabbcc'' = 6 \<and> list_all isHexDigit ''aabbcc''"
    by (simp add: isHexDigit_def)
  from handleHexInput_validation [of "init\<lparr>hexInput := ''#12345''\<rparr>" "''aabbcc''"] 1
  have a: "handleHexInput (init\<lparr>hexInput := ''#12345''\<rparr>) = init\<lparr>hexInput := ''#12345''\<rparr>"
    by blast
  from handleHexInput_validation [of init "''aabbcc''"] 2
  have "hexPattern (''#'' @ ''aabbcc'') \<and> hexPattern ''aabbcc'' \<and>
      hexToHSL (''#'' @ ''aabbcc'') = hexToHSL ''aabbcc'' \<and>
      baseColor (handleHexInput (init\<lparr>hexInput := ''#'' @ ''aabbcc''\<rparr>))
        = baseColor (handleHexInput (init\<lparr>hexInput := ''aabbcc''\<rparr>))"
    by blast
  with a show ?thesis
    by simp
qed

section \<open>Rounding to binary64\<close>

lemma powi2_pos [simp]: "0 < (2::rat) powi e"
  by (simp add: power_int_def)

lemma powi2_less_iff [simp]: "(2::rat) powi m < 2 powi n \<longleftrightarrow> m < n"
proof
  assume "(2::rat) powi m < 2 powi n"
  show "m < n"
  proof (rule ccontr)
    assume "\<not> m < n"
    then have "(2::rat) powi n \<le> 2 powi m"
      by (intro power_int_increasing) simp_all
    with \<open>(2::rat) powi m < 2 powi n\<close> show False
      by simp
  qed
next
  assume "m < n"
  then show "(2::rat) powi m < 2 powi n"
    by (intro power_int_strict_increasing) simp_all
qed

lemma powi2_le_iff [simp]: "(2::rat) powi m \<le> 2 powi n \<longleftrightarrow> m \<le> n"
  using powi2_less_iff [of n m] by (simp only: not_less [symmetric])

lemma powi2_Suc: "(2::rat) powi (e + 1) = 2 * 2 powi e"
  by (simp add: power_int_add)

lemma powi2_diff: "(2::rat) powi (m - n) = 2 powi m / 2 powi n"
  by (simp add: power_int_diff)

lemma bitlen_rat_bounds:
  assumes "0 < p"
  shows "2 powi (bitlen p - 1) \<le> (of_int p :: rat)" and "(of_int p :: rat) < 2 powi bitlen p"
proof -
  from bitlen_bounds [OF assms]
  have lo: "2 ^ nat (bitlen p - 1) \<le> p" and hi: "p < 2 ^ nat (bitlen p)"
    by simp_all
  have b1: "1 \<le> bitlen p"
    using assms by (simp add: bitlen_alt_def)
  have "(2::rat) powi (bitlen p - 1) = 2 ^ nat (bitlen p - 1)"
    using b1 by (simp add: power_int_def)
  also have "\<dots> = of_int (2 ^ nat (bitlen p - 1))"
    by simp
  also have "\<dots> \<le> of_int p"
    using lo by (simp only: of_int_le_iff)
  finally show "2 powi (bitlen p - 1) \<le> (of_int p :: rat)" .
  have "(of_int p :: rat) < of_int (2 ^ nat (bitlen p))"
    using hi by (simp only: of_int_less_iff)
  also have "\<dots> = 2 powi bitlen p"
    using b1 by (simp add: power_int_def)
  finally show "(of_int p :: rat) < 2 powi bitlen p" .
qed

lemma ilog2_bounds:
  assumes "x \<noteq> 0"
  shows "2 powi ilog2 x \<le> \<bar>x\<bar>" and "\<bar>x\<bar> < 2 powi (ilog2 x + 1)"
proof -
  obtain p q where pq: "quotient_of \<bar>x\<bar> = (p, q)"
    by (cases "quotient_of \<bar>x\<bar>")
  then have q: "0 < q" and x: "\<bar>x\<bar> = of_int p / of_int q"
    by (simp_all add: quotient_of_denom_pos quotient_of_div)
  from assms have "0 < \<bar>x\<bar>"
    by simp
  with x q have p: "0 < p"
    by (simp add: zero_less_divide_iff)
  let ?e = "bitlen p - bitlen q"
  note P = bitlen_rat_bounds [OF p] and Q = bitlen_rat_bounds [OF q]
  have qpos: "0 < (of_int q :: rat)"
    using q by simp
  have up: "\<bar>x\<bar> < 2 powi (?e + 1)"
  proof -
    have "\<bar>x\<bar> < 2 powi bitlen p / of_int q"
      unfolding x using P(2) qpos by (simp add: divide_strict_right_mono)
    also have "\<dots> \<le> 2 powi bitlen p / 2 powi (bitlen q - 1)"
      using Q(1) by (simp add: frac_le)
    also have "\<dots> = 2 powi (?e + 1)"
      by (simp add: power_int_diff power_int_add)
    finally show ?thesis .
  qed
  have lo: "2 powi (?e - 1) \<le> \<bar>x\<bar>"
  proof -
    have "(2::rat) powi (?e - 1) = 2 powi (bitlen p - 1) / 2 powi bitlen q"
      by (simp add: power_int_diff)
    also have "\<dots> \<le> of_int p / 2 powi bitlen q"
      using P(1) by (simp add: divide_right_mono)
    also have "\<dots> \<le> of_int p / of_int q"
      using Q(2) p qpos by (simp add: frac_le)
    finally show ?thesis
      unfolding x .
  qed
  have il: "ilog2 x = (if 2 powi ?e \<le> \<bar>x\<bar> then ?e else ?e - 1)"
    by (simp add: ilog2_def pq Let_def)
  show "2 powi ilog2 x \<le> \<bar>x\<bar>"
    using lo by (simp add: il)
  show "\<bar>x\<bar> < 2 powi (ilog2 x + 1)"
    using up by (auto simp: il not_le)
qed

lemma ilog2_eqI:
  assumes "2 powi e \<le> \<bar>x\<bar>" and "\<bar>x\<bar> < 2 powi (e + 1)"
  shows "ilog2 x = e"
proof -
  have "0 < (2::rat) powi e"
    by simp
  with assms(1) have "0 < \<bar>x\<bar>"
    by linarith
  then have nz: "x \<noteq> 0"
    by simp
  note B = ilog2_bounds [OF nz]
  from assms(1) B(2) have "(2::rat) powi e < 2 powi (ilog2 x + 1)"
    by (rule le_less_trans)
  moreover from B(1) assms(2) have "(2::rat) powi ilog2 x < 2 powi (e + 1)"
    by (rule le_less_trans)
  ultimately show ?thesis
    by simp
qed

lemma rne_of_int [simp]: "rne (of_int n) = n"
  by (simp add: rne_def)

lemma rne_floor_bounds: "\<lfloor>m\<rfloor> \<le> rne m" "rne m \<le> \<lfloor>m\<rfloor> + 1"
  by (simp_all add: rne_def Let_def)

lemma rne_mono:
  assumes "x \<le> y"
  shows "rne x \<le> rne y"
proof (cases "\<lfloor>x\<rfloor> = \<lfloor>y\<rfloor>")
  case True
  with assms show ?thesis
    by (auto simp: rne_def Let_def)
next
  case False
  with assms have "\<lfloor>x\<rfloor> + 1 \<le> \<lfloor>y\<rfloor>"
    using floor_mono [of x y] by linarith
  with rne_floor_bounds(2) [of x] rne_floor_bounds(1) [of y] show ?thesis
    by linarith
qed

lemma rne_error: "\<bar>of_int (rne m) - m\<bar> \<le> 1 / 2"
proof -
  have "of_int \<lfloor>m\<rfloor> \<le> m" "m < of_int \<lfloor>m\<rfloor> + 1"
    by linarith+
  then show ?thesis
    by (auto simp: rne_def Let_def abs_le_iff)
qed

lemma ilog2_minus [simp]: "ilog2 (- x) = ilog2 x"
  by (simp add: ilog2_def)

lemma fl_0 [simp]: "fl 0 = 0"
  by (simp add: fl_def)

lemma fl_minus: "fl (- x) = - fl x"
  by (simp add: fl_def Let_def)

lemma fl_pos_eq:
  "0 < x \<Longrightarrow> fl x = of_int (rne (x / 2 powi (ilog2 x - 52))) * 2 powi (ilog2 x - 52)"
  by (simp add: fl_def Let_def)

lemma fl_eqI:
  assumes "2 powi e \<le> x" and "x < 2 powi (e + 1)"
  shows "fl x = of_int (rne (x / 2 powi (e - 52))) * 2 powi (e - 52)"
proof -
  have "0 < (2::rat) powi e"
    by simp
  with assms(1) have x: "0 < x"
    by linarith
  then have "ilog2 x = e"
    using assms by (intro ilog2_eqI) simp_all
  with x show ?thesis
    by (simp add: fl_pos_eq)
qed

lemma scaled_range:
  fixes x :: rat
  assumes "2 powi e \<le> x" and "x < 2 powi (e + 1)"
  shows "2 ^ 52 \<le> x / 2 powi (e - 52)" and "x / 2 powi (e - 52) < 2 ^ 53"
proof -
  have e: "(2::rat) powi e = 2 ^ 52 * 2 powi (e - 52)"
    by (simp add: power_int_diff)
  have e1: "(2::rat) powi (e + 1) = 2 ^ 53 * 2 powi (e - 52)"
    by (simp add: power_int_diff power_int_add)
  show "2 ^ 52 \<le> x / 2 powi (e - 52)"
    using assms(1) unfolding e by (simp add: pos_le_divide_eq)
  show "x / 2 powi (e - 52) < 2 ^ 53"
    using assms(2) unfolding e1 by (simp add: pos_divide_less_eq)
qed

lemma fl_range:
  assumes "2 powi e \<le> x" and "x < 2 powi (e + 1)"
  shows "2 powi e \<le> fl x" and "fl x \<le> 2 powi (e + 1)"
proof -
  let ?u = "(2::rat) powi (e - 52)"
  note S = scaled_range [OF assms]
  have "rne (2 ^ 52) \<le> rne (x / ?u)"
    using S(1) by (rule rne_mono)
  moreover have "rne (of_int (2 ^ 52)) = (2 ^ 52 :: int)"
    by (rule rne_of_int)
  ultimately have lo: "(2 ^ 52 :: int) \<le> rne (x / ?u)"
    by simp
  have "rne (x / ?u) \<le> rne (2 ^ 53)"
    using S(2) by (intro rne_mono) simp
  moreover have "rne (of_int (2 ^ 53)) = (2 ^ 53 :: int)"
    by (rule rne_of_int)
  ultimately have hi: "rne (x / ?u) \<le> (2 ^ 53 :: int)"
    by simp
  have e: "(2::rat) powi e = 2 ^ 52 * ?u"
    by (simp add: power_int_diff)
  have e1: "(2::rat) powi (e + 1) = 2 ^ 53 * ?u"
    by (simp add: power_int_diff power_int_add)
  have "(2 ^ 52 :: rat) \<le> of_int (rne (x / ?u))"
    using lo by (metis of_int_le_iff of_int_numeral of_int_power)
  then show "2 powi e \<le> fl x"
    unfolding e fl_eqI [OF assms] by (simp add: mult_right_mono)
  have "(of_int (rne (x / ?u)) :: rat) \<le> 2 ^ 53"
    using hi by (metis of_int_le_iff of_int_numeral of_int_power)
  then show "fl x \<le> 2 powi (e + 1)"
    unfolding e1 fl_eqI [OF assms] by (simp add: mult_right_mono)
qed

lemma fl_pos: "0 < x \<Longrightarrow> 0 < fl x"
proof -
  assume x: "0 < x"
  then have "2 powi ilog2 x \<le> x" "x < 2 powi (ilog2 x + 1)"
    using ilog2_bounds [of x] by simp_all
  from fl_range(1) [OF this] show ?thesis
    using powi2_pos [of "ilog2 x"] by linarith
qed

lemma fl_mono_pos:
  assumes "0 < x" and "x \<le> y"
  shows "fl x \<le> fl y"
proof -
  from assms have y: "0 < y"
    by simp
  have X: "2 powi ilog2 x \<le> x" "x < 2 powi (ilog2 x + 1)"
    using ilog2_bounds [of x] assms(1) by simp_all
  have Y: "2 powi ilog2 y \<le> y" "y < 2 powi (ilog2 y + 1)"
    using ilog2_bounds [of y] y by simp_all
  have "(2::rat) powi ilog2 x < 2 powi (ilog2 y + 1)"
    using X(1) assms(2) Y(2) by linarith
  then have le: "ilog2 x \<le> ilog2 y"
    by simp
  show ?thesis
  proof (cases "ilog2 x = ilog2 y")
    case True
    have "x / 2 powi (ilog2 y - 52) \<le> y / 2 powi (ilog2 y - 52)"
      using assms(2) by (simp add: divide_right_mono)
    then have "rne (x / 2 powi (ilog2 y - 52)) \<le> rne (y / 2 powi (ilog2 y - 52))"
      by (rule rne_mono)
    then have "(of_int (rne (x / 2 powi (ilog2 y - 52))) :: rat) \<le> of_int (rne (y / 2 powi (ilog2 y - 52)))"
      by (simp only: of_int_le_iff)
    then show ?thesis
      using assms(1) y True by (simp add: fl_pos_eq mult_right_mono)
  next
    case False
    with le have "ilog2 x + 1 \<le> ilog2 y"
      by simp
    then have "(2::rat) powi (ilog2 x + 1) \<le> 2 powi ilog2 y"
      by simp
    with fl_range(2) [OF X] fl_range(1) [OF Y] show ?thesis
      by linarith
  qed
qed

lemma fl_nonneg: "0 \<le> x \<Longrightarrow> 0 \<le> fl x"
  using fl_pos [of x] by (cases "x = 0") (simp_all add: less_imp_le)

lemma fl_mono:
  assumes "x \<le> y"
  shows "fl x \<le> fl y"
proof -
  consider "0 < x" | "x \<le> 0" "0 \<le> y" | "y < 0"
    using assms by linarith
  then show ?thesis
  proof cases
    case 1
    then show ?thesis
      using assms by (rule fl_mono_pos)
  next
    case 2
    then have "0 \<le> fl (- x)" "0 \<le> fl y"
      by (simp_all add: fl_nonneg)
    then show ?thesis
      by (simp add: fl_minus)
  next
    case 3
    then have "fl (- y) \<le> fl (- x)"
      using assms by (intro fl_mono_pos) simp_all
    then show ?thesis
      by (simp add: fl_minus)
  qed
qed

lemma ilog2_bounds_pos:
  assumes "0 < x"
  shows "2 powi ilog2 x \<le> x" and "x < 2 powi (ilog2 x + 1)"
proof -
  from assms have "x \<noteq> 0" and "\<bar>x\<bar> = x"
    by simp_all
  with ilog2_bounds [of x] show "2 powi ilog2 x \<le> x" and "x < 2 powi (ilog2 x + 1)"
    by simp_all
qed

lemma fl_repr_pos:
  assumes "0 < n" and "n < 2 ^ 53"
  shows "fl (of_int n * 2 powi k) = of_int n * 2 powi k"
proof -
  let ?x = "of_int n * 2 powi k :: rat"
  have x: "0 < ?x"
    using assms(1) by simp
  let ?e = "ilog2 ?x"
  have B: "2 powi ?e \<le> ?x" "?x < 2 powi (?e + 1)"
    using x by (rule ilog2_bounds_pos)+
  have "(of_int n :: rat) < of_int (2 ^ 53)"
    using assms(2) by (simp only: of_int_less_iff)
  then have "?x < 2 ^ 53 * 2 powi k"
    by (simp add: mult_strict_right_mono)
  also have "\<dots> = 2 powi (53 + k)"
    by (simp add: power_int_add)
  finally have "(2::rat) powi ?e < 2 powi (53 + k)"
    using B(1) by linarith
  then have j: "0 \<le> k - ?e + 52"
    by simp
  have "?x / 2 powi (?e - 52) = of_int n * 2 powi (k - ?e + 52)"
    by (simp add: power_int_diff power_int_add)
  also have "\<dots> = of_int (n * 2 ^ nat (k - ?e + 52))"
    using j by (simp add: power_int_def)
  finally have "rne (?x / 2 powi (?e - 52)) = n * 2 ^ nat (k - ?e + 52)"
    by (simp only: rne_of_int)
  then have "fl ?x = of_int (n * 2 ^ nat (k - ?e + 52)) * 2 powi (?e - 52)"
    using x by (simp only: fl_pos_eq)
  also have "\<dots> = of_int n * 2 powi (k - ?e + 52) * 2 powi (?e - 52)"
    using j by (simp add: power_int_def)
  also have "\<dots> = ?x"
    by (simp add: power_int_diff power_int_add)
  finally show ?thesis .
qed

lemma fl_repr:
  assumes "\<bar>n\<bar> < 2 ^ 53"
  shows "fl (of_int n * 2 powi k) = of_int n * 2 powi k"
proof -
  consider "0 < n" | "n = 0" | "n < 0"
    by linarith
  then show ?thesis
  proof cases
    case 1
    with assms show ?thesis
      by (intro fl_repr_pos) simp_all
  next
    case 2
    then show ?thesis
      by simp
  next
    case 3
    with assms have "fl (of_int (- n) * 2 powi k) = of_int (- n) * 2 powi k"
      by (intro fl_repr_pos) simp_all
    then show ?thesis
      using fl_minus [of "of_int n * 2 powi k"] by simp
  qed
qed

lemma fl_of_int: "\<bar>n\<bar> < 2 ^ 53 \<Longrightarrow> fl (of_int n) = of_int n"
  using fl_repr [of n 0] by simp

lemma fl_numeral [simp]: "fl 1 = 1" "fl 2 = 2" "fl 3 = 3" "fl 5 = 5" "fl 6 = 6" "fl 100 = 100"
  "fl 360 = 360" "fl 255 = 255"
  using fl_of_int [of 1] fl_of_int [of 2] fl_of_int [of 3] fl_of_int [of 5] fl_of_int [of 6]
    fl_of_int [of 100] fl_of_int [of 360] fl_of_int [of 255]
  by simp_all

lemma fl_idem_pos:
  assumes "0 < x"
  shows "fl (fl x) = fl x"
proof -
  let ?e = "ilog2 x"
  let ?N = "rne (x / 2 powi (?e - 52))"
  have B: "2 powi ?e \<le> x" "x < 2 powi (?e + 1)"
    using assms by (rule ilog2_bounds_pos)+
  have f: "fl x = of_int ?N * 2 powi (?e - 52)"
    using assms by (rule fl_pos_eq)
  note S = scaled_range [OF B]
  have "rne (2 ^ 52) \<le> ?N"
    using S(1) by (rule rne_mono)
  moreover have "rne (of_int (2 ^ 52)) = (2 ^ 52 :: int)"
    by (rule rne_of_int)
  ultimately have lo: "0 < ?N"
    by simp
  have "?N \<le> rne (2 ^ 53)"
    using S(2) by (intro rne_mono) simp
  moreover have "rne (of_int (2 ^ 53)) = (2 ^ 53 :: int)"
    by (rule rne_of_int)
  ultimately have hi: "?N \<le> 2 ^ 53"
    by simp
  show ?thesis
  proof (cases "?N = 2 ^ 53")
    case True
    then have "fl x = of_int 1 * 2 powi (?e + 1)"
      unfolding f by (simp add: power_int_diff power_int_add)
    moreover have "fl (of_int 1 * 2 powi (?e + 1)) = of_int 1 * 2 powi (?e + 1)"
      by (rule fl_repr) simp
    ultimately show ?thesis
      by simp
  next
    case False
    with hi have "?N < 2 ^ 53"
      by simp
    with lo have "fl (of_int ?N * 2 powi (?e - 52)) = of_int ?N * 2 powi (?e - 52)"
      by (intro fl_repr_pos)
    then show ?thesis
      by (simp only: f)
  qed
qed

lemma fl_idem [simp]: "fl (fl x) = fl x"
proof -
  consider "0 < x" | "x = 0" | "0 < - x"
    by linarith
  then show ?thesis
  proof cases
    case 1
    then show ?thesis
      by (rule fl_idem_pos)
  next
    case 2
    then show ?thesis
      by simp
  next
    case 3
    from fl_idem_pos [OF this] show ?thesis
      by (simp add: fl_minus)
  qed
qed

lemma fl_error_pos:
  assumes "0 < x"
  shows "\<bar>fl x - x\<bar> \<le> x / 2 ^ 53"
proof -
  let ?e = "ilog2 x"
  let ?u = "(2::rat) powi (?e - 52)"
  have B: "2 powi ?e \<le> x"
    using assms by (rule ilog2_bounds_pos)
  have "fl x - x = (of_int (rne (x / ?u)) - x / ?u) * ?u"
    using assms by (simp add: fl_pos_eq algebra_simps)
  then have "\<bar>fl x - x\<bar> = \<bar>of_int (rne (x / ?u)) - x / ?u\<bar> * ?u"
    by (simp add: abs_mult)
  also have "\<dots> \<le> 1 / 2 * ?u"
    by (intro mult_right_mono rne_error) simp
  also have "\<dots> = 2 powi ?e / 2 ^ 53"
    by (simp add: power_int_diff)
  also have "\<dots> \<le> x / 2 ^ 53"
    using B by (simp add: divide_right_mono)
  finally show ?thesis .
qed

lemma fl_error: "\<bar>fl x - x\<bar> \<le> \<bar>x\<bar> / 2 ^ 53"
proof -
  consider "0 < x" | "x = 0" | "0 < - x"
    by linarith
  then show ?thesis
  proof cases
    case 1
    then show ?thesis
      using fl_error_pos [of x] by simp
  next
    case 2
    then show ?thesis
      by simp
  next
    case 3
    from fl_error_pos [OF this] have "\<bar>- fl x + x\<bar> \<le> - x / 2 ^ 53"
      by (simp add: fl_minus)
    moreover have "\<bar>- fl x + x\<bar> = \<bar>fl x - x\<bar>"
      by (simp add: abs_minus_commute)
    ultimately show ?thesis
      using 3 by simp
  qed
qed

section \<open>The range of \<open>hexToHSL\<close>\<close>

lemma fl_between:
  assumes "lo \<le> x" and "x \<le> hi" and "fl lo = lo" and "fl hi = hi"
  shows "lo \<le> fl x" and "fl x \<le> hi"
  using fl_mono [OF assms(1)] fl_mono [OF assms(2)] assms(3,4) by simp_all

lemma Math_round_range:
  assumes "0 \<le> x" and "x \<le> of_int n"
  shows "0 \<le> Math_round x" and "Math_round x \<le> n"
proof -
  show "0 \<le> Math_round x"
    using assms(1) by (simp add: Math_round_def)
  have "x + 1 / 2 < of_int (n + 1)"
    using assms(2) by simp
  then have "\<lfloor>x + 1 / 2\<rfloor> < n + 1"
    by (simp only: floor_less_iff)
  then show "Math_round x \<le> n"
    by (simp add: Math_round_def)
qed

lemma scaled_round_range:
  assumes "0 \<le> x" and "x \<le> 1" and "fl (of_int n) = of_int n" and "0 \<le> n"
  shows "0 \<le> Math_round (fmul x (of_int n))" and "Math_round (fmul x (of_int n)) \<le> n"
proof -
  have "0 \<le> x * of_int n" "x * of_int n \<le> of_int n"
    using assms by (simp_all add: mult_left_le_one_le)
  then have "0 \<le> fmul x (of_int n)" "fmul x (of_int n) \<le> of_int n"
    unfolding fmul_def using fl_between [of 0 "x * of_int n" "of_int n"] assms(3) by simp_all
  then show "0 \<le> Math_round (fmul x (of_int n))" and "Math_round (fmul x (of_int n)) \<le> n"
    by (rule Math_round_range)+
qed

lemma channel_unit:
  assumes "0 \<le> c" and "c \<le> 255"
  shows "0 \<le> fdiv (of_int c) 255" and "fdiv (of_int c) 255 \<le> 1"
    and "fl (fdiv (of_int c) 255) = fdiv (of_int c) 255"
proof -
  have "(0::rat) \<le> of_int c / 255" "(of_int c :: rat) / 255 \<le> 1"
    using assms by simp_all
  then show "0 \<le> fdiv (of_int c) 255" and "fdiv (of_int c) 255 \<le> 1"
    unfolding fdiv_def using fl_between [of 0 "of_int c / 255" 1] by simp_all
  show "fl (fdiv (of_int c) 255) = fdiv (of_int c) 255"
    by (simp add: fdiv_def)
qed

lemma fdiv_unit:
  assumes "0 < d" and "- d \<le> t" and "t \<le> d"
  shows "- 1 \<le> fdiv t d" and "fdiv t d \<le> 1"
    and "t \<le> 0 \<Longrightarrow> fdiv t d \<le> 0" and "0 \<le> t \<Longrightarrow> 0 \<le> fdiv t d"
proof -
  have "- 1 \<le> t / d" "t / d \<le> 1"
    using assms by (simp_all add: pos_le_divide_eq pos_divide_le_eq)
  then show "- 1 \<le> fdiv t d" and "fdiv t d \<le> 1"
    unfolding fdiv_def using fl_between [of "- 1" "t / d" 1] by (simp_all add: fl_minus)
  show "fdiv t d \<le> 0" if "t \<le> 0"
  proof -
    from that assms(1) have "t / d \<le> 0"
      by (simp add: divide_nonpos_pos)
    from fl_mono [OF this] show ?thesis
      by (simp add: fdiv_def)
  qed
  show "0 \<le> fdiv t d" if "0 \<le> t"
    using that assms(1) by (simp add: fdiv_def fl_nonneg)
qed

lemma fsub_range:
  assumes "mn \<le> x" "x \<le> mx" "mn \<le> y" "y \<le> mx"
  shows "- fsub mx mn \<le> fsub x y" and "fsub x y \<le> fsub mx mn"
proof -
  have "- (mx - mn) \<le> x - y" "x - y \<le> mx - mn"
    using assms by simp_all
  from fl_mono [OF this(1)] fl_mono [OF this(2)]
  show "- fsub mx mn \<le> fsub x y" and "fsub x y \<le> fsub mx mn"
    unfolding fsub_def fl_minus by simp_all
qed

lemma hue_unit:
  assumes "- 1 \<le> q" and "q \<le> 1" and "0 \<le> q + k" and "q + k \<le> 6"
  shows "0 \<le> fdiv (fadd q k) 6" and "fdiv (fadd q k) 6 \<le> 1"
proof -
  have "0 \<le> fadd q k" "fadd q k \<le> 6"
    unfolding fadd_def using fl_between [of 0 "q + k" 6] assms(3,4) by simp_all
  then have "0 \<le> fadd q k / 6" "fadd q k / 6 \<le> 1"
    by simp_all
  then show "0 \<le> fdiv (fadd q k) 6" and "fdiv (fadd q k) 6 \<le> 1"
    unfolding fdiv_def using fl_between [of 0 "fadd q k / 6" 1] by simp_all
qed

lemma RGBToHSL_range:
  assumes cr: "0 \<le> cr \<and> cr \<le> 255" and cg: "0 \<le> cg \<and> cg \<le> 255"
    and cb: "0 \<le> cb \<and> cb \<le> 255"
  shows "0 \<le> h (RGBToHSL cr cg cb) \<and> h (RGBToHSL cr cg cb) \<le> 360 \<and>
         0 \<le> s (RGBToHSL cr cg cb) \<and> s (RGBToHSL cr cg cb) \<le> 100 \<and>
         0 \<le> l (RGBToHSL cr cg cb) \<and> l (RGBToHSL cr cg cb) \<le> 100"
proof -
  define x where "x = fdiv (of_int cr) 255"
  define y where "y = fdiv (of_int cg) 255"
  define z where "z = fdiv (of_int cb) 255"
  define mx where "mx = max (max x y) z"
  define mn where "mn = min (min x y) z"
  define li where "li = fdiv (fadd mx mn) 2"
  define d where "d = fsub mx mn"
  define sa where "sa = (if 1 / 2 < li then fdiv d (fsub (fsub 2 mx) mn) else fdiv d (fadd mx mn))"
  define hu where "hu = fdiv (if mx = x then fadd (fdiv (fsub y z) d) (if y < z then 6 else 0)
                    else if mx = y then fadd (fdiv (fsub z x) d) 2
                    else fadd (fdiv (fsub x y) d) 4) 6"
  have eq: "RGBToHSL cr cg cb =
      (if mx = mn then \<lparr>h = Math_round (fmul 0 360), s = Math_round (fmul 0 100),
                            l = Math_round (fmul li 100)\<rparr>
       else \<lparr>h = Math_round (fmul hu 360), s = Math_round (fmul sa 100),
                l = Math_round (fmul li 100)\<rparr>)"
    unfolding RGBToHSL_def Let_def x_def y_def z_def mx_def mn_def li_def d_def sa_def hu_def
    by simp
  have X: "0 \<le> x" "x \<le> 1" "fl x = x" and Y: "0 \<le> y" "y \<le> 1" "fl y = y"
    and Z: "0 \<le> z" "z \<le> 1" "fl z = z"
    unfolding x_def y_def z_def using cr cg cb by (simp_all add: channel_unit)
  have MX: "0 \<le> mx" "mx \<le> 1" "fl mx = mx" and MN: "0 \<le> mn" "mn \<le> 1" "fl mn = mn"
    and ord: "mn \<le> x" "x \<le> mx" "mn \<le> y" "y \<le> mx" "mn \<le> z" "z \<le> mx" "mn \<le> mx"
    unfolding mx_def mn_def using X Y Z by (auto simp: max_def min_def)
  \<comment> \<open>lightness\<close>
  have "0 \<le> fadd mx mn" "fadd mx mn \<le> 2"
    unfolding fadd_def using fl_between [of 0 "mx + mn" 2] MX MN by simp_all
  then have "0 \<le> fadd mx mn / 2" "fadd mx mn / 2 \<le> 1"
    by simp_all
  then have LI: "0 \<le> li" "li \<le> 1"
    unfolding li_def fdiv_def using fl_between [of 0 "fadd mx mn / 2" 1] by simp_all
  have L: "0 \<le> Math_round (fmul li 100)" "Math_round (fmul li 100) \<le> 100"
    using scaled_round_range [OF LI, of 100] by simp_all
  have "\<lfloor>1 / 2 :: rat\<rfloor> = 0"
    by (rule floor_unique) simp_all
  then have zero: "Math_round (fmul 0 360) = 0" "Math_round (fmul 0 100) = 0"
    by (simp_all add: fmul_def Math_round_def)
  show ?thesis
  proof (cases "mx = mn")
    case True
    with L zero show ?thesis
      by (simp add: eq)
  next
    case False
    with ord have "0 < mx - mn"
      by simp
    then have dpos: "0 < d"
      unfolding d_def fsub_def by (rule fl_pos)
    \<comment> \<open>saturation\<close>
    have "d \<le> fsub (fsub 2 mx) mn"
    proof -
      have "mx \<le> 2 - mx"
        using MX by simp
      from fl_mono [OF this] have "mx \<le> fsub 2 mx"
        by (simp add: fsub_def MX)
      then have "mx - mn \<le> fsub 2 mx - mn"
        by simp
      from fl_mono [OF this] show ?thesis
        by (simp add: d_def fsub_def)
    qed
    moreover have "d \<le> fadd mx mn"
    proof -
      have "mx - mn \<le> mx + mn"
        using MN by simp
      from fl_mono [OF this] show ?thesis
        by (simp add: d_def fsub_def fadd_def)
    qed
    ultimately have "\<exists>den. sa = fdiv d den \<and> d \<le> den"
      by (auto simp: sa_def)
    then obtain den where sa: "sa = fdiv d den" and den: "d \<le> den"
      by blast
    have "0 \<le> d / den" "d / den \<le> 1"
      using dpos den by simp_all
    then have SA: "0 \<le> sa" "sa \<le> 1"
      unfolding sa fdiv_def using fl_between [of 0 "d / den" 1] by simp_all
    have S: "0 \<le> Math_round (fmul sa 100)" "Math_round (fmul sa 100) \<le> 100"
      using scaled_round_range [OF SA, of 100] by simp_all
    \<comment> \<open>hue\<close>
    have HU: "0 \<le> hu \<and> hu \<le> 1"
    proof -
      have d: "d = fsub mx mn"
        by (rule d_def)
      note q1 = fdiv_unit [OF dpos fsub_range [OF ord(3,4,5,6), folded d]]
      note q2 = fdiv_unit [OF dpos fsub_range [OF ord(5,6,1,2), folded d]]
      note q3 = fdiv_unit [OF dpos fsub_range [OF ord(1,2,3,4), folded d]]
      consider (a) "mx = x" "y < z" | (b) "mx = x" "\<not> y < z" | (c) "mx \<noteq> x" "mx = y"
        | (e) "mx \<noteq> x" "mx \<noteq> y"
        by blast
      then show ?thesis
      proof cases
        case a
        then have "y - z \<le> 0"
          by simp
        from fl_mono [OF this] have "fsub y z \<le> 0"
          by (simp add: fsub_def)
        with q1 have "- 1 \<le> fdiv (fsub y z) d" "fdiv (fsub y z) d \<le> 0"
          by simp_all
        then show ?thesis
          using a hue_unit [of "fdiv (fsub y z) d" 6] by (simp add: hu_def)
      next
        case b
        then have "0 \<le> y - z"
          by simp
        from fl_mono [OF this] have "0 \<le> fsub y z"
          by (simp add: fsub_def)
        with q1 have "0 \<le> fdiv (fsub y z) d" "fdiv (fsub y z) d \<le> 1"
          by simp_all
        then show ?thesis
          using b hue_unit [of "fdiv (fsub y z) d" 0] by (simp add: hu_def)
      next
        case c
        then show ?thesis
          using q2(1,2) hue_unit [of "fdiv (fsub z x) d" 2] by (simp add: hu_def)
      next
        case e
        then show ?thesis
          using q3(1,2) hue_unit [of "fdiv (fsub x y) d" 4] by (simp add: hu_def)
      qed
    qed
    have H: "0 \<le> Math_round (fmul hu 360)" "Math_round (fmul hu 360) \<le> 360"
      using scaled_round_range [of hu 360] HU by simp_all
    from False H S L show ?thesis
      by (simp add: eq)
  qed
qed

lemma RGBToHSL_eval:
  assumes "fdiv (of_int cr) 255 = x" and "fdiv (of_int cg) 255 = y" and "fdiv (of_int cb) 255 = z"
    and "max (max x y) z = mx" and "min (min x y) z = mn" and "mx \<noteq> mn"
    and "fdiv (fadd mx mn) 2 = li" and "fsub mx mn = d"
    and "(if 1 / 2 < li then fdiv d (fsub (fsub 2 mx) mn) else fdiv d (fadd mx mn)) = sa"
    and "(if mx = x then fadd (fdiv (fsub y z) d) (if y < z then 6 else 0)
          else if mx = y then fadd (fdiv (fsub z x) d) 2
          else fadd (fdiv (fsub x y) d) 4) = hq"
    and "fdiv hq 6 = hu"
  shows "RGBToHSL cr cg cb =
           \<lparr>h = Math_round (fmul hu 360), s = Math_round (fmul sa 100), l = Math_round (fmul li 100)\<rparr>"
  unfolding RGBToHSL_def Let_def assms(1-5) assms(7,8) assms(9) assms(10) assms(11)
  using assms(6) by simp

lemma RGBToHSL_255_0_1: "RGBToHSL 255 0 1 = \<lparr>h = 360, s = 100, l = 50\<rparr>"
proof -
  have "RGBToHSL 255 0 1 =
      \<lparr>h = Math_round (fmul (562582012275285 / 562949953421312) 360),
       s = Math_round (fmul 1 100), l = Math_round (fmul (1 / 2) 100)\<rparr>"
    by (rule RGBToHSL_eval [where x = 1 and y = 0 and z = "282578800148737 / 72057594037927936"
          and mx = 1 and mn = 0 and d = 1 and hq = "1687746036825855 / 281474976710656"])
      code_simp+
  moreover have "Math_round (fmul (562582012275285 / 562949953421312) 360) = 360"
    "Math_round (fmul 1 100) = 100" "Math_round (fmul (1 / 2) 100) = 50"
    by code_simp+
  ultimately show ?thesis
    by simp
qed

lemma channels_range:
  assumes "length t = 6" and "list_all isHexDigit t"
  shows "case channels t of (cr, cg, cb) \<Rightarrow>
           (0 \<le> cr \<and> cr \<le> 255) \<and> (0 \<le> cg \<and> cg \<le> 255) \<and> (0 \<le> cb \<and> cb \<le> 255)"
proof -
  from assms(1) obtain c1 c2 c3 c4 c5 c6 where t: "t = [c1, c2, c3, c4, c5, c6]"
    by (rule length6E)
  with assms(2) have d: "isHexDigit c1" "isHexDigit c2" "isHexDigit c3" "isHexDigit c4"
    "isHexDigit c5" "isHexDigit c6"
    by simp_all
  from d [THEN isHexDigit_cases] show ?thesis
    by (simp add: t channels_def)
qed

lemma hexToHSL_ff0001: "hexToHSL ''#ff0001'' = Some \<lparr>h = 360, s = 100, l = 50\<rparr>"
proof -
  have d: "length ''ff0001'' = 6" "list_all isHexDigit ''ff0001''"
    by (simp_all add: isHexDigit_def)
  have "channels ''ff0001'' = (255, 0, 1)"
    by (simp add: channels_def hexValue_def)
  with hexToHSL_digits [OF d] RGBToHSL_255_0_1 show ?thesis
    by simp
qed

text \<open>
  Claim C4, as stated: for an input that matches the pattern, \<open>hexToHSL\<close> returns \<open>h\<close> below
  360. It fails: the hue is rounded after the scaling to degrees and is not reduced
  modulo 360, so a hue of 359.5 degrees or more comes out as 360. For \<open>#ff0001\<close> the hue
  before rounding is about 359.76.
\<close>

theorem hexToHSL_h_below_360_counterexample:
  "hexPattern ''#ff0001'' \<and> hexToHSL ''#ff0001'' = Some \<lparr>h = 360, s = 100, l = 50\<rparr>"
  by (simp add: hexToHSL_ff0001 hexPattern_def isHexDigit_def)

text \<open>
  Claim C4, amended. For an input that matches the pattern, \<open>hexToHSL\<close> returns integers
  \<open>h\<close> from 0 to 360, both included, and \<open>s\<close> and \<open>l\<close> from 0 to 100.
\<close>

theorem hexToHSL_range:
  assumes "hexPattern str"
  shows "\<exists>c. hexToHSL str = Some c \<and> 0 \<le> h c \<and> h c \<le> 360 \<and>
           0 \<le> s c \<and> s c \<le> 100 \<and> 0 \<le> l c \<and> l c \<le> 100"
proof -
  from assms obtain t where t: "length t = 6" "list_all isHexDigit t"
    and str: "str = t \<or> str = CHR ''#'' # t"
    by (rule hexPattern_cases)
  obtain cr cg cb where c: "channels t = (cr, cg, cb)"
    by (cases "channels t")
  from channels_range [OF t] c
  have "0 \<le> cr \<and> cr \<le> 255" "0 \<le> cg \<and> cg \<le> 255" "0 \<le> cb \<and> cb \<le> 255"
    by simp_all
  note R = RGBToHSL_range [OF this]
  from hexToHSL_digits(1,2) [OF t] c str have "hexToHSL str = Some (RGBToHSL cr cg cb)"
    by auto
  with R show ?thesis
    by simp
qed

theorem hexToHSL_range_witness:
  "hexPattern ''#ff0001'' \<and>
   (\<exists>c. hexToHSL ''#ff0001'' = Some c \<and> 0 \<le> h c \<and> h c \<le> 360 \<and>
      0 \<le> s c \<and> s c \<le> 100 \<and> 0 \<le> l c \<and> l c \<le> 100)"
proof -
  have "hexPattern ''#ff0001''"
    by (simp add: hexPattern_def isHexDigit_def)
  with hexToHSL_range [of "''#ff0001''"] show ?thesis
    by simp
qed

section \<open>Edits of the base colour\<close>

lemma assignBase_selection:
  "selectedColor (assignBase c st) = selectedColor st"
  "selectedShade (assignBase c st) = selectedShade st"
  by (simp_all add: assignBase_def generatePalette_def)

lemma handleHexInput_selection:
  "selectedColor (handleHexInput st) = selectedColor st"
  "selectedShade (handleHexInput st) = selectedShade st"
  by (simp_all add: handleHexInput_def assignBase_selection split: option.splits)


text \<open>
  Claim C8. A change of the base colour, by a slider or by a hexadecimal input that is
  accepted, leaves the selected palette index as it was, while the palette is generated
  again from the new base colour.
\<close>

theorem base_edit_keeps_selectedColor:
  "selectedColor (assignBase c st) = selectedColor st \<and>
   selectedColor (setHue v st) = selectedColor st \<and>
   selectedColor (setSaturation v st) = selectedColor st \<and>
   selectedColor (setLightness v st) = selectedColor st \<and>
   selectedColor (handleHexInput st) = selectedColor st \<and>
   (c \<noteq> baseColor st \<longrightarrow>
      palette (assignBase c st) = palette (generatePalette (st\<lparr>baseColor := c\<rparr>)))"
  by (simp add: setHue_def setSaturation_def setLightness_def assignBase_selection
      handleHexInput_selection) (simp add: assignBase_def)

theorem base_edit_keeps_selectedColor_witness:
  "\<lparr>h = 100, s = 70, l = 60\<rparr> \<noteq> baseColor st_shade_selected \<and>
   selectedColor (setHue 100 st_shade_selected) = Some 3 \<and>
   map h (palette (assignBase \<lparr>h = 100, s = 70, l = 60\<rparr> st_shade_selected))
     = [100, 130, 220, 250, 280, 310, 340, 10]"
proof -
  have ne: "\<lparr>h = 100, s = 70, l = 60\<rparr> \<noteq> baseColor st_shade_selected"
    by (simp add: st_shade_selected_simps)
  have "palette (assignBase \<lparr>h = 100, s = 70, l = 60\<rparr> st_shade_selected)
        = palette (generatePalette (st_shade_selected\<lparr>baseColor := \<lparr>h = 100, s = 70, l = 60\<rparr>\<rparr>))"
    and "selectedColor (setHue 100 st_shade_selected) = selectedColor st_shade_selected"
    using base_edit_keeps_selectedColor [of "\<lparr>h = 100, s = 70, l = 60\<rparr>" st_shade_selected 100] ne
    by blast+
  then show ?thesis
    using ne by (simp add: st_shade_selected_simps palette_generatePalette hueOffsets_def js_rem_def)
qed




section \<open>Accuracy of the conversions\<close>

subsection \<open>Propagation of rounding errors\<close>

lemma fl_near:
  assumes "\<bar>x - y\<bar> \<le> t" and "\<bar>y\<bar> \<le> B"
  shows "\<bar>fl x - y\<bar> \<le> t + (B + t) * eps"
proof -
  have "\<bar>x\<bar> \<le> B + t"
    using assms by linarith
  then have "\<bar>x\<bar> / 2 ^ 53 \<le> (B + t) / 2 ^ 53"
    by (simp add: divide_right_mono)
  with fl_error [of x] have "\<bar>fl x - x\<bar> \<le> (B + t) * eps"
    by (simp add: eps_def)
  with assms(1) show ?thesis
    by linarith
qed

lemma mult_near:
  fixes x1 x2 y1 y2 :: rat
  assumes "\<bar>x1 - y1\<bar> \<le> t1" and "\<bar>x2 - y2\<bar> \<le> t2" and "\<bar>y1\<bar> \<le> B1" and "\<bar>x2\<bar> \<le> B2"
  shows "\<bar>x1 * x2 - y1 * y2\<bar> \<le> t1 * B2 + B1 * t2"
proof -
  have "x1 * x2 - y1 * y2 = (x1 - y1) * x2 + y1 * (x2 - y2)"
    by (simp add: algebra_simps)
  then have "\<bar>x1 * x2 - y1 * y2\<bar> \<le> \<bar>x1 - y1\<bar> * \<bar>x2\<bar> + \<bar>y1\<bar> * \<bar>x2 - y2\<bar>"
    by (simp add: abs_mult [symmetric]) 
  also have "\<dots> \<le> t1 * B2 + B1 * t2"
    using assms by (intro add_mono mult_mono; simp)
  finally show ?thesis .
qed

lemma div_near:
  fixes x1 x2 y1 y2 :: rat
  assumes "\<bar>x1 - y1\<bar> \<le> t1" and "\<bar>x2 - y2\<bar> \<le> t2" and "\<bar>y1\<bar> \<le> y2"
    and "c \<le> y2" and "0 < c" and "2 * t2 \<le> c"
  shows "\<bar>x1 / x2 - y1 / y2\<bar> \<le> 2 * (t1 + t2) / c"
proof -
  have y2: "0 < y2"
    using assms(4,5) by linarith
  have x2: "c / 2 \<le> x2"
    using assms(2,4,6) by linarith
  then have x2pos: "0 < x2"
    using assms(5) by linarith
  have t: "0 \<le> t1" "0 \<le> t2"
    using assms(1,2) by linarith+
  have "x1 / x2 - y1 / y2 = ((x1 - y1) * y2 - y1 * (x2 - y2)) / (x2 * y2)"
    using x2pos y2 by (simp add: field_simps)
  then have "\<bar>x1 / x2 - y1 / y2\<bar> = \<bar>(x1 - y1) * y2 - y1 * (x2 - y2)\<bar> / (x2 * y2)"
    using x2pos y2 by (simp add: abs_mult)
  also have "\<bar>(x1 - y1) * y2 - y1 * (x2 - y2)\<bar> \<le> \<bar>x1 - y1\<bar> * y2 + \<bar>y1\<bar> * \<bar>x2 - y2\<bar>"
    using y2 by (metis abs_mult abs_of_pos abs_triangle_ineq4)
  also have "\<dots> \<le> t1 * y2 + y2 * t2"
    using assms(1,2,3) y2 t by (intro add_mono mult_mono) simp_all
  also have "\<dots> = (t1 + t2) * y2"
    by (simp add: algebra_simps)
  finally have "\<bar>x1 / x2 - y1 / y2\<bar> \<le> (t1 + t2) * y2 / (x2 * y2)"
    using x2pos y2 by (simp add: divide_right_mono)
  also have "\<dots> = (t1 + t2) / x2"
    using y2 by simp
  also have "\<dots> \<le> (t1 + t2) / (c / 2)"
    using x2 t assms(5) by (intro divide_left_mono) simp_all
  finally show ?thesis
    by (simp add: algebra_simps)
qed

lemma eps_pos: "0 < eps" and eps_small: "eps \<le> 1 / 1000000000000"
  by (simp_all add: eps_def)

lemma chan_near:
  assumes "0 \<le> c" and "c \<le> 255"
  shows "\<bar>fdiv (of_int c) 255 - of_int c / 255\<bar> \<le> eps"
proof -
  have "\<bar>(of_int c :: rat) / 255\<bar> \<le> 1"
    using assms by simp
  from fl_near [of "of_int c / 255" "of_int c / 255" 0 1] this show ?thesis
    by (simp add: fdiv_def)
qed

lemma chan_mono: "c \<le> c' \<Longrightarrow> fdiv (of_int c) 255 \<le> fdiv (of_int c') 255"
  unfolding fdiv_def by (rule fl_mono) (simp add: divide_right_mono)

lemma chan_strict:
  assumes "0 \<le> c" and "c < c'" and "c' \<le> 255"
  shows "fdiv (of_int c) 255 < fdiv (of_int c') 255"
proof -
  have 1: "\<bar>fdiv (of_int c) 255 - of_int c / 255\<bar> \<le> eps"
    and 2: "\<bar>fdiv (of_int c') 255 - of_int c' / 255\<bar> \<le> eps"
    using assms by (intro chan_near; simp)+
  have "c + 1 \<le> c'"
    using assms(2) by simp
  then have "(of_int (c + 1) :: rat) \<le> of_int c'"
    by (simp only: of_int_le_iff)
  then have "(of_int c :: rat) / 255 + 1 / 255 \<le> of_int c' / 255"
    by simp
  moreover have "2 * eps < 1 / 255"
    by (simp add: eps_def)
  ultimately show ?thesis
    using 1 2 by linarith
qed

lemma chan_less_iff:
  assumes "0 \<le> c \<and> c \<le> 255" and "0 \<le> c' \<and> c' \<le> 255"
  shows "fdiv (of_int c) 255 < fdiv (of_int c') 255 \<longleftrightarrow> c < c'"
  using chan_strict [of c c'] chan_mono [of c' c] assms by (auto simp: not_less [symmetric])

lemma chan_eq_iff:
  assumes "0 \<le> c \<and> c \<le> 255" and "0 \<le> c' \<and> c' \<le> 255"
  shows "fdiv (of_int c) 255 = fdiv (of_int c') 255 \<longleftrightarrow> c = c'"
  using chan_strict [of c c'] chan_strict [of c' c] assms by (cases c c' rule: linorder_cases) auto

lemma chan_max: "max (fdiv (of_int c) 255) (fdiv (of_int c') 255) = fdiv (of_int (max c c')) 255"
  using chan_mono [of c c'] chan_mono [of c' c] by (cases "c \<le> c'") (simp_all add: max_def)

lemma chan_min: "min (fdiv (of_int c) 255) (fdiv (of_int c') 255) = fdiv (of_int (min c c')) 255"
  using chan_mono [of c c'] chan_mono [of c' c] by (cases "c \<le> c'") (simp_all add: min_def)

lemma Math_round_near:
  assumes "\<bar>x - y\<bar> \<le> t"
  shows "\<bar>of_int (Math_round x) - y\<bar> \<le> 1 / 2 + t"
proof -
  have "of_int \<lfloor>x + 1 / 2\<rfloor> \<le> x + 1 / 2" "x + 1 / 2 < of_int \<lfloor>x + 1 / 2\<rfloor> + 1"
    by linarith+
  with assms show ?thesis
    unfolding Math_round_def by linarith
qed

text \<open>The conversion with the comparisons of the channels as comparisons of integers.\<close>

lemma RGBToHSL_bytes:
  fixes cr cg cb :: int
  defines "M \<equiv> max (max cr cg) cb" and "m \<equiv> min (min cr cg) cb"
  defines "mx \<equiv> fdiv (of_int M) 255" and "mn \<equiv> fdiv (of_int m) 255"
  defines "li \<equiv> fdiv (fadd mx mn) 2" and "d \<equiv> fsub mx mn"
  assumes cr: "0 \<le> cr \<and> cr \<le> 255" and cg: "0 \<le> cg \<and> cg \<le> 255"
    and cb: "0 \<le> cb \<and> cb \<le> 255"
  shows "RGBToHSL cr cg cb =
      (if M = m then \<lparr>h = 0, s = 0, l = Math_round (fmul li 100)\<rparr>
       else \<lparr>h = Math_round (fmul (fdiv
                   (if cr = M then fadd (fdiv (fsub (fdiv (of_int cg) 255) (fdiv (of_int cb) 255)) d)
                                     (if cg < cb then 6 else 0)
                    else if cg = M then fadd (fdiv (fsub (fdiv (of_int cb) 255) (fdiv (of_int cr) 255)) d) 2
                    else fadd (fdiv (fsub (fdiv (of_int cr) 255) (fdiv (of_int cg) 255)) d) 4) 6) 360),
              s = Math_round (fmul (if 1 / 2 < li then fdiv d (fsub (fsub 2 mx) mn)
                                    else fdiv d (fadd mx mn)) 100),
              l = Math_round (fmul li 100)\<rparr>)"
proof -
  have Mb: "0 \<le> M \<and> M \<le> 255" and mb: "0 \<le> m \<and> m \<le> 255"
    using cr cg cb by (auto simp: M_def m_def)
  have mx: "max (max (fdiv (of_int cr) 255) (fdiv (of_int cg) 255)) (fdiv (of_int cb) 255) = mx"
    by (simp add: chan_max mx_def M_def)
  have mn: "min (min (fdiv (of_int cr) 255) (fdiv (of_int cg) 255)) (fdiv (of_int cb) 255) = mn"
    by (simp add: chan_min mn_def m_def)
  have c1: "mx = mn \<longleftrightarrow> M = m"
    unfolding mx_def mn_def using Mb mb by (rule chan_eq_iff)
  have c2: "mx = fdiv (of_int cr) 255 \<longleftrightarrow> cr = M"
    unfolding mx_def using Mb cr chan_eq_iff [of M cr] by auto
  have c3: "mx = fdiv (of_int cg) 255 \<longleftrightarrow> cg = M"
    unfolding mx_def using Mb cg chan_eq_iff [of M cg] by auto
  have c4: "fdiv (of_int cg) 255 < fdiv (of_int cb) 255 \<longleftrightarrow> cg < cb"
    using cg cb by (rule chan_less_iff)
  have "\<lfloor>1 / 2 :: rat\<rfloor> = 0"
    by (rule floor_unique) simp_all
  then have zero: "Math_round (fmul 0 360) = 0" "Math_round (fmul 0 100) = 0"
    by (simp_all add: fmul_def Math_round_def)
  show ?thesis
    unfolding RGBToHSL_def Let_def mx mn c1 c2 c3 c4 zero li_def d_def by simp
qed

lemma eps_scale:
  assumes "j \<le> 1000000000000"
  shows "j * eps \<le> 1"
proof -
  have "j * eps \<le> 1000000000000 * eps"
    using assms eps_pos by (simp add: mult_right_mono)
  also have "\<dots> \<le> 1"
    by (simp add: eps_def)
  finally show ?thesis .
qed

lemma fl_near1:
  assumes "\<bar>x - y\<bar> \<le> j * eps" and "\<bar>y\<bar> \<le> B" and "j \<le> 1000000000000"
  shows "\<bar>fl x - y\<bar> \<le> (j + B + 1) * eps"
proof -
  have "B + j * eps \<le> B + 1"
    using eps_scale [OF assms(3)] by simp
  then have "(B + j * eps) * eps \<le> (B + 1) * eps"
    using eps_pos by (simp add: mult_right_mono)
  with fl_near [OF assms(1,2)] show ?thesis
    by (simp add: algebra_simps)
qed

lemma fadd_near:
  assumes "\<bar>x1 - y1\<bar> \<le> j1 * eps" and "\<bar>x2 - y2\<bar> \<le> j2 * eps" and "\<bar>y1 + y2\<bar> \<le> B"
    and "j1 + j2 \<le> 1000000000000"
  shows "\<bar>fadd x1 x2 - (y1 + y2)\<bar> \<le> (j1 + j2 + B + 1) * eps"
proof -
  have "\<bar>x1 + x2 - (y1 + y2)\<bar> \<le> (j1 + j2) * eps"
    using assms(1,2) by (simp add: algebra_simps)
  from fl_near1 [OF this assms(3,4)] show ?thesis
    by (simp add: fadd_def)
qed

lemma fsub_near:
  assumes "\<bar>x1 - y1\<bar> \<le> j1 * eps" and "\<bar>x2 - y2\<bar> \<le> j2 * eps" and "\<bar>y1 - y2\<bar> \<le> B"
    and "j1 + j2 \<le> 1000000000000"
  shows "\<bar>fsub x1 x2 - (y1 - y2)\<bar> \<le> (j1 + j2 + B + 1) * eps"
proof -
  have "\<bar>x1 - x2 - (y1 - y2)\<bar> \<le> (j1 + j2) * eps"
    using assms(1,2) by (simp add: algebra_simps)
  from fl_near1 [OF this assms(3,4)] show ?thesis
    by (simp add: fsub_def)
qed

lemma fmul_near:
  assumes "\<bar>x1 - y1\<bar> \<le> j1 * eps" and "\<bar>x2 - y2\<bar> \<le> j2 * eps" and "\<bar>y1\<bar> \<le> B1" and "\<bar>x2\<bar> \<le> B2"
    and "\<bar>y1 * y2\<bar> \<le> B" and "j1 * B2 + B1 * j2 \<le> 1000000000000"
  shows "\<bar>fmul x1 x2 - y1 * y2\<bar> \<le> (j1 * B2 + B1 * j2 + B + 1) * eps"
proof -
  from mult_near [OF assms(1-4)] have "\<bar>x1 * x2 - y1 * y2\<bar> \<le> (j1 * B2 + B1 * j2) * eps"
    by (simp add: algebra_simps)
  from fl_near1 [OF this assms(5,6)] show ?thesis
    by (simp add: fmul_def)
qed

lemma fdiv_near:
  assumes "\<bar>x1 - y1\<bar> \<le> j1 * eps" and "\<bar>x2 - y2\<bar> \<le> j2 * eps" and "\<bar>y1\<bar> \<le> y2"
    and "c \<le> y2" and "0 < c" and "2 * j2 \<le> c * 1000000000000"
    and "2 * (j1 + j2) / c \<le> 1000000000000"
  shows "\<bar>fdiv x1 x2 - y1 / y2\<bar> \<le> (2 * (j1 + j2) / c + 2) * eps"
proof -
  have "0 < y2"
    using assms(4,5) by linarith
  with assms(3) have 1: "\<bar>y1 / y2\<bar> \<le> 1"
    by simp
  have "2 * j2 * eps \<le> c * 1000000000000 * eps"
    using assms(6) eps_pos by (simp add: mult_right_mono)
  also have "\<dots> \<le> c * 1"
    unfolding mult.assoc using assms(5) by (intro mult_left_mono) (simp_all add: eps_def)
  finally have "2 * (j2 * eps) \<le> c"
    by simp
  from div_near [OF assms(1-5) this]
  have "\<bar>x1 / x2 - y1 / y2\<bar> \<le> (2 * (j1 + j2) / c) * eps"
    by (simp add: algebra_simps add_divide_distrib)
  from fl_near1 [OF this 1 assms(7)] show ?thesis
    by (simp add: fdiv_def algebra_simps)
qed

lemma fscale_near:
  assumes "\<bar>x - y\<bar> \<le> j * eps" and "\<bar>y\<bar> \<le> B" and "0 \<le> k" and "j * k \<le> 1000000000000"
  shows "\<bar>fmul x k - y * k\<bar> \<le> (j * k + B * k + 1) * eps"
proof -
  have "\<bar>x * k - y * k\<bar> = \<bar>x - y\<bar> * k"
    using assms(3) by (simp add: abs_mult left_diff_distrib [symmetric])
  also have "\<dots> \<le> j * eps * k"
    using assms(1,3) by (rule mult_right_mono)
  finally have 1: "\<bar>x * k - y * k\<bar> \<le> (j * k) * eps"
    by (simp add: algebra_simps)
  have "\<bar>y * k\<bar> = \<bar>y\<bar> * k"
    using assms(3) by (simp add: abs_mult)
  also have "\<dots> \<le> B * k"
    using assms(2,3) by (rule mult_right_mono)
  finally have 2: "\<bar>y * k\<bar> \<le> B * k" .
  from fl_near1 [OF 1 2 assms(4)] show ?thesis
    by (simp add: fmul_def)
qed

lemma fhalve_near:
  assumes "\<bar>x - y\<bar> \<le> j * eps" and "\<bar>y\<bar> \<le> B * k" and "0 < k" and "j \<le> k * 1000000000000"
  shows "\<bar>fdiv x k - y / k\<bar> \<le> (j / k + B + 1) * eps"
proof -
  have "\<bar>x / k - y / k\<bar> = \<bar>x - y\<bar> / k"
    using assms(3) by (simp add: diff_divide_distrib [symmetric])
  also have "\<dots> \<le> j * eps / k"
    using assms(1,3) by (simp add: divide_right_mono)
  finally have 1: "\<bar>x / k - y / k\<bar> \<le> (j / k) * eps"
    by simp
  have 2: "\<bar>y / k\<bar> \<le> B"
    using assms(2,3) by (simp add: pos_divide_le_eq)
  have 3: "j / k \<le> 1000000000000"
    using assms(3,4) by (simp add: pos_divide_le_eq mult.commute)
  from fl_near1 [OF 1 2 3] show ?thesis
    by (simp add: fdiv_def)
qed

lemma near_weaken: "\<bar>x - y\<bar> \<le> j * eps \<Longrightarrow> j \<le> k \<Longrightarrow> \<bar>x - y\<bar> \<le> k * eps"
  using eps_pos by (meson mult_right_mono order_trans less_imp_le)

lemma chan_near': "0 \<le> c \<and> c \<le> 255 \<Longrightarrow> \<bar>fdiv (of_int c) 255 - of_int c / 255\<bar> \<le> 1 * eps"
  using chan_near [of c] by simp

lemma light_near:
  assumes M: "0 \<le> M \<and> M \<le> 255" and m: "0 \<le> m \<and> m \<le> 255"
  shows "\<bar>fdiv (fadd (fdiv (of_int M) 255) (fdiv (of_int m) 255)) 2 - lightExact M m\<bar> \<le> 5 * eps"
proof -
  have "\<bar>(of_int M :: rat) / 255 + of_int m / 255\<bar> \<le> 2"
    using M m by simp
  from fadd_near [OF chan_near' [OF M] chan_near' [OF m] this]
  have 1: "\<bar>fadd (fdiv (of_int M) 255) (fdiv (of_int m) 255) - (of_int M / 255 + of_int m / 255)\<bar> \<le> 5 * eps"
    by simp
  have "\<bar>(of_int M :: rat) / 255 + of_int m / 255\<bar> \<le> 1 * 2"
    using M m by simp
  from fhalve_near [OF 1 this]
  have "\<bar>fdiv (fadd (fdiv (of_int M) 255) (fdiv (of_int m) 255)) 2 - (of_int M / 255 + of_int m / 255) / 2\<bar>
      \<le> (5 / 2 + 1 + 1) * eps"
    by simp
  moreover have "((of_int M :: rat) / 255 + of_int m / 255) / 2 = lightExact M m"
    by (simp add: lightExact_def)
  ultimately show ?thesis
    using eps_pos by simp
qed

subsection \<open>From channels to hue, saturation and lightness\<close>

lemma cancel255: "(x::rat) / 255 / (y / 255) = x / y"
  by simp

lemma diff_near:
  assumes Y: "0 \<le> Y \<and> Y \<le> 255" and Z: "0 \<le> Z \<and> Z \<le> 255"
  shows "\<bar>fsub (fdiv (of_int Y) 255) (fdiv (of_int Z) 255) - of_int (Y - Z) / 255\<bar> \<le> 4 * eps"
proof -
  have "\<bar>(of_int Y :: rat) / 255 - of_int Z / 255\<bar> \<le> 1"
    using Y Z by (simp add: abs_le_iff) 
  from fsub_near [OF chan_near' [OF Y] chan_near' [OF Z] this] show ?thesis
    by (simp add: diff_divide_distrib)
qed

lemma light_branch:
  assumes M: "0 \<le> M \<and> M \<le> 255" and m: "0 \<le> m \<and> m \<le> 255"
  defines "li \<equiv> fdiv (fadd (fdiv (of_int M) 255) (fdiv (of_int m) 255)) 2"
  shows "1 / 2 < li \<Longrightarrow> 255 \<le> M + m" and "\<not> 1 / 2 < li \<Longrightarrow> M + m \<le> 255"
proof -
  have n: "\<bar>li - lightExact M m\<bar> \<le> 5 * eps"
    unfolding li_def using M m by (rule light_near)
  have e: "5 * eps < 1 / 510"
    by (simp add: eps_def)
  show "255 \<le> M + m" if "1 / 2 < li"
  proof (rule ccontr)
    assume "\<not> 255 \<le> M + m"
    then have "M + m \<le> 254"
      by simp
    then have "(of_int (M + m) :: rat) \<le> 254"
      by (metis of_int_le_iff of_int_numeral)
    then have "lightExact M m \<le> 254 / 510"
      by (simp add: lightExact_def)
    with n e that show False
      by linarith
  qed
  show "M + m \<le> 255" if "\<not> 1 / 2 < li"
  proof (rule ccontr)
    assume "\<not> M + m \<le> 255"
    then have "256 \<le> M + m"
      by simp
    then have "256 \<le> (of_int (M + m) :: rat)"
      by (metis of_int_le_iff of_int_numeral)
    then have "256 / 510 \<le> lightExact M m"
      by (simp add: lightExact_def)
    with n e that show False
      by linarith
  qed
qed

lemma sat_near:
  assumes M: "0 \<le> M \<and> M \<le> 255" and m: "0 \<le> m \<and> m \<le> 255" and lt: "m < M"
  defines "mx \<equiv> fdiv (of_int M) 255" and "mn \<equiv> fdiv (of_int m) 255"
  defines "li \<equiv> fdiv (fadd mx mn) 2" and "d \<equiv> fsub mx mn"
  shows "\<bar>(if 1 / 2 < li then fdiv d (fsub (fsub 2 mx) mn) else fdiv d (fadd mx mn))
           - satExact M m\<bar> \<le> 6122 * eps"
proof -
  have d: "\<bar>d - of_int (M - m) / 255\<bar> \<le> 4 * eps"
    unfolding d_def mx_def mn_def using M m by (rule diff_near)
  have D1: "(1::rat) \<le> of_int (M - m)"
    using lt by (metis of_int_1 of_int_le_iff zless_imp_add1_zle diff_ge_0_iff_ge add.commute
        le_diff_eq)
  have Mr: "(0::rat) \<le> of_int M" "(of_int M :: rat) \<le> 255"
    and mr: "(0::rat) \<le> of_int m" "(of_int m :: rat) \<le> 255"
    using M m by simp_all
  show ?thesis
  proof (cases "1 / 2 < li")
    case True
    then have hi: "255 \<le> M + m"
      unfolding li_def mx_def mn_def using light_branch(1) [OF M m] by simp
    have "\<bar>2 - (of_int M :: rat) / 255\<bar> \<le> 2"
      using Mr by (simp add: abs_le_iff)
    from fsub_near [of 2 2 0 mx "of_int M / 255" 1, OF _ chan_near' [OF M, folded mx_def] this]
    have 1: "\<bar>fsub 2 mx - (2 - of_int M / 255)\<bar> \<le> 4 * eps"
      by simp
    have "\<bar>2 - (of_int M :: rat) / 255 - of_int m / 255\<bar> \<le> 2"
      using Mr mr by (simp add: abs_le_iff)
    from fsub_near [OF 1 chan_near' [OF m, folded mn_def] this]
    have 2: "\<bar>fsub (fsub 2 mx) mn - (2 - of_int M / 255 - of_int m / 255)\<bar> \<le> 8 * eps"
      by simp
    have den: "2 - (of_int M :: rat) / 255 - of_int m / 255 = of_int (510 - M - m) / 255"
      by (simp add: diff_divide_distrib)
    have "M - m \<le> 510 - M - m"
      using M by simp
    then have le: "(of_int (M - m) :: rat) \<le> of_int (510 - M - m)"
      by (simp only: of_int_le_iff)
    have 3: "\<bar>(of_int (M - m) :: rat) / 255\<bar> \<le> of_int (510 - M - m) / 255"
      using D1 le by (simp add: abs_le_iff)
    have 4: "(1::rat) / 255 \<le> of_int (510 - M - m) / 255"
      using D1 le by simp
    have "\<bar>fdiv d (fsub (fsub 2 mx) mn) - of_int (M - m) / 255 / (of_int (510 - M - m) / 255)\<bar>
        \<le> (2 * (4 + 8) / (1 / 255) + 2) * eps"
      by (rule fdiv_near [OF d 2 [unfolded den] 3 4]) simp_all
    then have "\<bar>fdiv d (fsub (fsub 2 mx) mn) - of_int (M - m) / of_int (510 - M - m)\<bar> \<le> 6122 * eps"
      unfolding cancel255 by simp
    moreover have "satExact M m = (of_int (M - m) :: rat) / of_int (510 - M - m)"
    proof (cases "M + m = 255")
      case True
      then have "510 - M - m = M + m"
        by simp
      then show ?thesis
        unfolding satExact_def by simp
    next
      case False
      with hi show ?thesis
        unfolding satExact_def by simp
    qed
    ultimately show ?thesis
      using True by simp
  next
    case False
    then have lo: "M + m \<le> 255"
      unfolding li_def mx_def mn_def using light_branch(2) [OF M m] by simp
    have "\<bar>(of_int M :: rat) / 255 + of_int m / 255\<bar> \<le> 2"
      using Mr mr by simp
    from fadd_near [OF chan_near' [OF M] chan_near' [OF m] this]
    have 2: "\<bar>fadd mx mn - (of_int M / 255 + of_int m / 255)\<bar> \<le> 8 * eps"
      unfolding mx_def mn_def using eps_pos by simp
    have den: "(of_int M :: rat) / 255 + of_int m / 255 = of_int (M + m) / 255"
      by (simp add: add_divide_distrib)
    have "M - m \<le> M + m"
      using m by simp
    then have le: "(of_int (M - m) :: rat) \<le> of_int (M + m)"
      by (simp only: of_int_le_iff)
    have 3: "\<bar>(of_int (M - m) :: rat) / 255\<bar> \<le> of_int (M + m) / 255"
      using D1 le by (simp add: abs_le_iff)
    have 4: "(1::rat) / 255 \<le> of_int (M + m) / 255"
      using D1 le by simp
    have "\<bar>fdiv d (fadd mx mn) - of_int (M - m) / 255 / (of_int (M + m) / 255)\<bar>
        \<le> (2 * (4 + 8) / (1 / 255) + 2) * eps"
      by (rule fdiv_near [OF d 2 [unfolded den] 3 4]) simp_all
    then have "\<bar>fdiv d (fadd mx mn) - of_int (M - m) / of_int (M + m)\<bar> \<le> 6122 * eps"
      unfolding cancel255 by simp
    moreover have "satExact M m = (of_int (M - m) :: rat) / of_int (M + m)"
      using lo unfolding satExact_def by simp
    ultimately show ?thesis
      using False by simp
  qed
qed

lemma quot_near:
  assumes M: "0 \<le> M \<and> M \<le> 255" and m: "0 \<le> m \<and> m \<le> 255" and lt: "m < M"
    and Y: "m \<le> Y \<and> Y \<le> M" and Z: "m \<le> Z \<and> Z \<le> M"
    and k: "k \<in> {0, 2, 4, 6}" and range: "0 \<le> of_int (Y - Z) / of_int (M - m) + k"
      "of_int (Y - Z) / of_int (M - m) + k \<le> 6"
  defines "d \<equiv> fsub (fdiv (of_int M) 255) (fdiv (of_int m) 255)"
  shows "\<bar>fmul (fdiv (fadd (fdiv (fsub (fdiv (of_int Y) 255) (fdiv (of_int Z) 255)) d) k) 6) 360
           - 60 * (of_int (Y - Z) / of_int (M - m) + k)\<bar> \<le> 247000 * eps"
proof -
  let ?q = "(of_int (Y - Z) :: rat) / of_int (M - m)"
  have Yb: "0 \<le> Y \<and> Y \<le> 255" and Zb: "0 \<le> Z \<and> Z \<le> 255"
    using M m Y Z by auto
  have d: "\<bar>d - of_int (M - m) / 255\<bar> \<le> 4 * eps"
    unfolding d_def using M m by (rule diff_near)
  have n: "\<bar>fsub (fdiv (of_int Y) 255) (fdiv (of_int Z) 255) - of_int (Y - Z) / 255\<bar> \<le> 4 * eps"
    using Yb Zb by (rule diff_near)
  have D1: "(1::rat) \<le> of_int (M - m)"
    using lt by (metis of_int_1 of_int_le_iff zless_imp_add1_zle diff_ge_0_iff_ge add.commute
        le_diff_eq)
  have "\<bar>Y - Z\<bar> \<le> M - m"
    using Y Z by (simp add: abs_le_iff)
  then have "(of_int \<bar>Y - Z\<bar> :: rat) \<le> of_int (M - m)"
    by (simp only: of_int_le_iff)
  then have le: "\<bar>of_int (Y - Z) :: rat\<bar> \<le> of_int (M - m)"
    by simp
  have 3: "\<bar>(of_int (Y - Z) :: rat) / 255\<bar> \<le> of_int (M - m) / 255"
    using le by simp
  have 4: "(1::rat) / 255 \<le> of_int (M - m) / 255"
    using D1 by simp
  have "\<bar>fdiv (fsub (fdiv (of_int Y) 255) (fdiv (of_int Z) 255)) d
          - of_int (Y - Z) / 255 / (of_int (M - m) / 255)\<bar> \<le> (2 * (4 + 4) / (1 / 255) + 2) * eps"
    by (rule fdiv_near [OF n d 3 4]) simp_all
  then have q: "\<bar>fdiv (fsub (fdiv (of_int Y) 255) (fdiv (of_int Z) 255)) d - ?q\<bar> \<le> 4082 * eps"
    unfolding cancel255 by simp
  have kk: "\<bar>k - k\<bar> \<le> 0 * eps"
    by simp
  have B: "\<bar>?q + k\<bar> \<le> 6"
    using range by (simp add: abs_le_iff)
  from fadd_near [OF q kk B]
  have a: "\<bar>fadd (fdiv (fsub (fdiv (of_int Y) 255) (fdiv (of_int Z) 255)) d) k - (?q + k)\<bar> \<le> 4089 * eps"
    by simp
  have "\<bar>?q + k\<bar> \<le> 1 * 6"
    using B by simp
  from fhalve_near [OF a this]
  have "\<bar>fdiv (fadd (fdiv (fsub (fdiv (of_int Y) 255) (fdiv (of_int Z) 255)) d) k) 6 - (?q + k) / 6\<bar>
      \<le> (4089 / 6 + 1 + 1) * eps"
    by simp
  then have s: "\<bar>fdiv (fadd (fdiv (fsub (fdiv (of_int Y) 255) (fdiv (of_int Z) 255)) d) k) 6 - (?q + k) / 6\<bar>
      \<le> 684 * eps"
    by (rule near_weaken) simp
  have "\<bar>(?q + k) / 6\<bar> \<le> 1"
    using B by simp
  from fscale_near [OF s this, of 360]
  have "\<bar>fmul (fdiv (fadd (fdiv (fsub (fdiv (of_int Y) 255) (fdiv (of_int Z) 255)) d) k) 6) 360
        - (?q + k) / 6 * 360\<bar> \<le> (684 * 360 + 1 * 360 + 1) * eps"
    by simp
  then have "\<bar>fmul (fdiv (fadd (fdiv (fsub (fdiv (of_int Y) 255) (fdiv (of_int Z) 255)) d) k) 6) 360
        - (?q + k) / 6 * 360\<bar> \<le> 247000 * eps"
    by (rule near_weaken) simp
  moreover have "(?q + k) / 6 * 360 = 60 * (?q + k)"
    by simp
  ultimately show ?thesis
    by (simp only:)
qed

lemma ratio_unit:
  fixes Y Z M m :: int
  assumes "m < M" and "m \<le> Y \<and> Y \<le> M" and "m \<le> Z \<and> Z \<le> M"
  shows "- 1 \<le> (of_int (Y - Z) :: rat) / of_int (M - m)" and "(of_int (Y - Z) :: rat) / of_int (M - m) \<le> 1"
    and "Y \<le> Z \<Longrightarrow> (of_int (Y - Z) :: rat) / of_int (M - m) \<le> 0"
    and "Z \<le> Y \<Longrightarrow> 0 \<le> (of_int (Y - Z) :: rat) / of_int (M - m)"
proof -
  have D: "(0::rat) < of_int (M - m)"
    using assms(1) by simp
  have "- (M - m) \<le> Y - Z" "Y - Z \<le> M - m"
    using assms(2,3) by simp_all
  then have "(of_int (- (M - m)) :: rat) \<le> of_int (Y - Z)" "(of_int (Y - Z) :: rat) \<le> of_int (M - m)"
    by (simp_all only: of_int_le_iff)
  then show "- 1 \<le> (of_int (Y - Z) :: rat) / of_int (M - m)"
    and "(of_int (Y - Z) :: rat) / of_int (M - m) \<le> 1"
    using D by (simp_all add: pos_le_divide_eq pos_divide_le_eq)
  show "(of_int (Y - Z) :: rat) / of_int (M - m) \<le> 0" if "Y \<le> Z"
  proof -
    from that have "(of_int (Y - Z) :: rat) \<le> 0"
      by simp
    with D show ?thesis
      by (simp add: divide_nonpos_pos)
  qed
  show "0 \<le> (of_int (Y - Z) :: rat) / of_int (M - m)" if "Z \<le> Y"
  proof -
    from that have "(0::rat) \<le> of_int (Y - Z)"
      by simp
    with D show ?thesis
      by simp
  qed
qed

lemma RGBToHSL_near:
  fixes cr cg cb :: int
  defines "M \<equiv> max (max cr cg) cb" and "m \<equiv> min (min cr cg) cb"
  assumes cr: "0 \<le> cr \<and> cr \<le> 255" and cg: "0 \<le> cg \<and> cg \<le> 255"
    and cb: "0 \<le> cb \<and> cb \<le> 255"
  shows "\<bar>of_int (l (RGBToHSL cr cg cb)) - 100 * lightExact M m\<bar> \<le> 1 / 2 + 1000000 * eps"
    and "M = m \<Longrightarrow> h (RGBToHSL cr cg cb) = 0 \<and> s (RGBToHSL cr cg cb) = 0"
    and "M \<noteq> m \<Longrightarrow> \<bar>of_int (s (RGBToHSL cr cg cb)) - 100 * satExact M m\<bar> \<le> 1 / 2 + 1000000 * eps"
    and "M \<noteq> m \<Longrightarrow> \<bar>of_int (h (RGBToHSL cr cg cb)) - 60 * hueExact cr cg cb\<bar> \<le> 1 / 2 + 1000000 * eps"
proof -
  have Mb: "0 \<le> M \<and> M \<le> 255" and mb: "0 \<le> m \<and> m \<le> 255"
    using cr cg cb by (auto simp: M_def m_def)
  have ord: "m \<le> cr \<and> cr \<le> M" "m \<le> cg \<and> cg \<le> M" "m \<le> cb \<and> cb \<le> M"
    by (auto simp: M_def m_def)
  note eq = RGBToHSL_bytes [OF cr cg cb, folded M_def m_def]
  \<comment> \<open>lightness\<close>
  have "\<bar>lightExact M m\<bar> \<le> 1"
    using Mb mb by (simp add: lightExact_def)
  from fscale_near [OF light_near [OF Mb mb] this, of 100]
  have "\<bar>fmul (fdiv (fadd (fdiv (of_int M) 255) (fdiv (of_int m) 255)) 2) 100 - 100 * lightExact M m\<bar>
      \<le> 601 * eps"
    by (simp add: mult.commute)
  then have "\<bar>fmul (fdiv (fadd (fdiv (of_int M) 255) (fdiv (of_int m) 255)) 2) 100 - 100 * lightExact M m\<bar>
      \<le> 1000000 * eps"
    by (rule near_weaken) simp
  moreover have "l (RGBToHSL cr cg cb)
      = Math_round (fmul (fdiv (fadd (fdiv (of_int M) 255) (fdiv (of_int m) 255)) 2) 100)"
    by (simp add: eq)
  ultimately show "\<bar>of_int (l (RGBToHSL cr cg cb)) - 100 * lightExact M m\<bar> \<le> 1 / 2 + 1000000 * eps"
    using Math_round_near by simp
  show "h (RGBToHSL cr cg cb) = 0 \<and> s (RGBToHSL cr cg cb) = 0" if "M = m"
    using that by (simp add: eq)
  assume ne: "M \<noteq> m"
  with ord have lt: "m < M"
    by linarith
  \<comment> \<open>saturation\<close>
  have "\<bar>satExact M m\<bar> \<le> 1"
  proof -
    have "M - m \<le> M + m" "M - m \<le> 510 - M - m"
      using Mb mb by simp_all
    then have "(of_int (M - m) :: rat) \<le> of_int (M + m)" "(of_int (M - m) :: rat) \<le> of_int (510 - M - m)"
      by (simp_all only: of_int_le_iff)
    moreover have "(0::rat) < of_int (M - m)"
      using lt by simp
    ultimately show ?thesis
      unfolding satExact_def by (auto simp: abs_le_iff simp del: of_int_diff of_int_add)
  qed
  from fscale_near [OF sat_near [OF Mb mb lt] this, of 100]
  have "\<bar>fmul (if 1 / 2 < fdiv (fadd (fdiv (of_int M) 255) (fdiv (of_int m) 255)) 2
           then fdiv (fsub (fdiv (of_int M) 255) (fdiv (of_int m) 255))
                  (fsub (fsub 2 (fdiv (of_int M) 255)) (fdiv (of_int m) 255))
           else fdiv (fsub (fdiv (of_int M) 255) (fdiv (of_int m) 255))
                  (fadd (fdiv (of_int M) 255) (fdiv (of_int m) 255))) 100 - 100 * satExact M m\<bar>
      \<le> 612301 * eps"
    by (simp add: mult.commute)
  then have "\<bar>fmul (if 1 / 2 < fdiv (fadd (fdiv (of_int M) 255) (fdiv (of_int m) 255)) 2
           then fdiv (fsub (fdiv (of_int M) 255) (fdiv (of_int m) 255))
                  (fsub (fsub 2 (fdiv (of_int M) 255)) (fdiv (of_int m) 255))
           else fdiv (fsub (fdiv (of_int M) 255) (fdiv (of_int m) 255))
                  (fadd (fdiv (of_int M) 255) (fdiv (of_int m) 255))) 100 - 100 * satExact M m\<bar>
      \<le> 1000000 * eps"
    by (rule near_weaken) simp
  from Math_round_near [OF this]
  show "\<bar>of_int (s (RGBToHSL cr cg cb)) - 100 * satExact M m\<bar> \<le> 1 / 2 + 1000000 * eps"
    using ne by (simp add: eq)
  \<comment> \<open>hue\<close>
  let ?hu = "fdiv
                   (if cr = M then fadd (fdiv (fsub (fdiv (of_int cg) 255) (fdiv (of_int cb) 255))
                              (fsub (fdiv (of_int M) 255) (fdiv (of_int m) 255)))
                                     (if cg < cb then 6 else 0)
                    else if cg = M then fadd (fdiv (fsub (fdiv (of_int cb) 255) (fdiv (of_int cr) 255))
                              (fsub (fdiv (of_int M) 255) (fdiv (of_int m) 255))) 2
                    else fadd (fdiv (fsub (fdiv (of_int cr) 255) (fdiv (of_int cg) 255))
                              (fsub (fdiv (of_int M) 255) (fdiv (of_int m) 255))) 4) 6"
  have hx: "hueExact cr cg cb =
      (if cr = M then of_int (cg - cb) / of_int (M - m) + (if cg < cb then 6 else 0)
       else if cg = M then of_int (cb - cr) / of_int (M - m) + 2
       else of_int (cr - cg) / of_int (M - m) + 4)"
    unfolding hueExact_def Let_def M_def m_def by (rule refl)
  have "\<bar>fmul ?hu 360 - 60 * hueExact cr cg cb\<bar> \<le> 247000 * eps"
  proof -
    consider (a) "cr = M" "cg < cb" | (b) "cr = M" "\<not> cg < cb" | (c) "cr \<noteq> M" "cg = M"
      | (e) "cr \<noteq> M" "cg \<noteq> M"
      by blast
    then show ?thesis
    proof cases
      case a
      note q = ratio_unit [OF lt ord(2) ord(3)]
      from a have "cg \<le> cb"
        by simp
      with q have "0 \<le> of_int (cg - cb) / of_int (M - m) + (6::rat)"
        "of_int (cg - cb) / of_int (M - m) + (6::rat) \<le> 6"
        by linarith+
      then show ?thesis
        unfolding hx if_P [OF a(1)] if_P [OF a(2)]
        by (intro quot_near [OF Mb mb lt ord(2) ord(3)]) simp_all
    next
      case b
      note q = ratio_unit [OF lt ord(2) ord(3)]
      from b have "cb \<le> cg"
        by simp
      with q have "0 \<le> of_int (cg - cb) / of_int (M - m) + (0::rat)"
        "of_int (cg - cb) / of_int (M - m) + (0::rat) \<le> 6"
        by linarith+
      then show ?thesis
        unfolding hx if_P [OF b(1)] if_not_P [OF b(2)]
        by (intro quot_near [OF Mb mb lt ord(2) ord(3)]) simp_all
    next
      case c
      note q = ratio_unit [OF lt ord(3) ord(1)]
      then have "0 \<le> of_int (cb - cr) / of_int (M - m) + (2::rat)"
        "of_int (cb - cr) / of_int (M - m) + (2::rat) \<le> 6"
        by linarith+
      then show ?thesis
        unfolding hx if_not_P [OF c(1)] if_P [OF c(2)]
        by (intro quot_near [OF Mb mb lt ord(3) ord(1)]) simp_all
    next
      case e
      note q = ratio_unit [OF lt ord(1) ord(2)]
      then have "0 \<le> of_int (cr - cg) / of_int (M - m) + (4::rat)"
        "of_int (cr - cg) / of_int (M - m) + (4::rat) \<le> 6"
        by linarith+
      then show ?thesis
        unfolding hx if_not_P [OF e(1)] if_not_P [OF e(2)]
        by (intro quot_near [OF Mb mb lt ord(1) ord(2)]) simp_all
    qed
  qed
  then have "\<bar>fmul ?hu 360 - 60 * hueExact cr cg cb\<bar> \<le> 1000000 * eps"
    by (rule near_weaken) simp
  moreover have "h (RGBToHSL cr cg cb) = Math_round (fmul ?hu 360)"
    using ne by (simp add: eq)
  ultimately show "\<bar>of_int (h (RGBToHSL cr cg cb)) - 60 * hueExact cr cg cb\<bar> \<le> 1 / 2 + 1000000 * eps"
    using Math_round_near by simp
qed

subsection \<open>From hue, saturation and lightness to channels\<close>

lemma frem_nonneg:
  assumes "0 \<le> y"
  shows "frem y 12 = y - 12 * of_int \<lfloor>y / 12\<rfloor>" and "0 \<le> frem y 12" and "frem y 12 < 12"
proof -
  show eq: "frem y 12 = y - 12 * of_int \<lfloor>y / 12\<rfloor>"
    using assms by (simp add: frem_def trunc_def)
  have "of_int \<lfloor>y / 12\<rfloor> \<le> y / 12" "y / 12 < of_int \<lfloor>y / 12\<rfloor> + 1"
    by linarith+
  then show "0 \<le> frem y 12" and "frem y 12 < 12"
    unfolding eq by linarith+
qed

lemma frem_small: "0 \<le> y \<Longrightarrow> y < 12 \<Longrightarrow> frem y 12 = y"
proof -
  assume "0 \<le> y" "y < 12"
  then have "\<lfloor>y / 12\<rfloor> = 0"
    by (intro floor_unique) simp_all
  with \<open>0 \<le> y\<close> show ?thesis
    by (simp add: frem_nonneg(1))
qed

lemma frem_next: "12 \<le> y \<Longrightarrow> y < 24 \<Longrightarrow> frem y 12 = y - 12"
proof -
  assume "12 \<le> y" "y < 24"
  then have "\<lfloor>y / 12\<rfloor> = 1"
    by (intro floor_unique) simp_all
  with \<open>12 \<le> y\<close> show ?thesis
    by (simp add: frem_nonneg(1))
qed

lemma wave_range: "- 1 \<le> wave y" "wave y \<le> 1"
  by (simp_all add: wave_def min_le_iff_disj)

lemma min_near:
  fixes x1 x2 y1 y2 t :: rat
  assumes "\<bar>x1 - y1\<bar> \<le> t" and "\<bar>x2 - y2\<bar> \<le> t"
  shows "\<bar>min x1 x2 - min y1 y2\<bar> \<le> t"
  using assms by (simp add: min_def) linarith

lemma max_near:
  fixes x1 x2 y1 y2 t :: rat
  assumes "\<bar>x1 - y1\<bar> \<le> t" and "\<bar>x2 - y2\<bar> \<le> t"
  shows "\<bar>max x1 x2 - max y1 y2\<bar> \<le> t"
  using assms by (simp add: max_def) linarith

lemma tri_near:
  fixes u v u' v' t :: rat
  assumes "\<bar>u - u'\<bar> \<le> t" and "\<bar>v - v'\<bar> \<le> t"
  shows "\<bar>max (- 1) (min u (min v 1)) - max (- 1) (min u' (min v' 1))\<bar> \<le> t"
proof -
  have t: "0 \<le> t"
    using assms(1) by linarith
  then have "\<bar>min v 1 - min v' 1\<bar> \<le> t"
    using assms(2) by (intro min_near) simp_all
  with assms(1) have "\<bar>min u (min v 1) - min u' (min v' 1)\<bar> \<le> t"
    by (rule min_near)
  with t show ?thesis
    by (intro max_near) simp_all
qed

lemma tri_lipschitz:
  fixes k k' :: rat
  shows "\<bar>max (- 1) (min (k - 3) (min (9 - k) 1)) - max (- 1) (min (k' - 3) (min (9 - k') 1))\<bar>
           \<le> \<bar>k - k'\<bar>"
  by (rule tri_near) simp_all

lemma tri_bounds:
  fixes k :: rat
  shows "- 1 \<le> max (- 1) (min (k - 3) (min (9 - k) 1))"
    and "max (- 1) (min (k - 3) (min (9 - k) 1)) \<le> 1"
    and "0 \<le> k \<Longrightarrow> max (- 1) (min (k - 3) (min (9 - k) 1)) \<le> k - 1"
    and "k \<le> 12 \<Longrightarrow> max (- 1) (min (k - 3) (min (9 - k) 1)) \<le> 11 - k"
  by (simp_all add: min_le_iff_disj)

lemma tri_wrap:
  fixes k k' :: rat
  assumes "0 \<le> k" "k < 12" "0 \<le> k'" "k' < 12"
  shows "\<bar>max (- 1) (min (k - 3) (min (9 - k) 1)) - max (- 1) (min (k' - 3) (min (9 - k') 1))\<bar>
           \<le> 12 + k' - k"
proof -
  define c where "c = max (- 1) (min (k - 3) (min (9 - k) 1))"
  define c' where "c' = max (- 1) (min (k' - 3) (min (9 - k') 1))"
  have "- 1 \<le> c" "c \<le> 11 - k" "- 1 \<le> c'" "c' \<le> k' - 1"
    unfolding c_def c'_def using assms by (simp_all only: tri_bounds less_imp_le)
  then have "\<bar>c - c'\<bar> \<le> 12 + k' - k"
    using assms by linarith
  then show ?thesis
    by (simp only: c_def c'_def)
qed

lemma wave_lipschitz_le:
  assumes "0 \<le> y" and "y \<le> y'"
  shows "\<bar>wave y - wave y'\<bar> \<le> y' - y"
proof -
  from assms have y': "0 \<le> y'"
    by simp
  let ?j = "\<lfloor>y / 12\<rfloor>" and ?j' = "\<lfloor>y' / 12\<rfloor>"
  note F = frem_nonneg [OF assms(1)] and F' = frem_nonneg [OF y']
  have "y / 12 \<le> y' / 12"
    using assms(2) by simp
  then have jj: "?j \<le> ?j'"
    by (rule floor_mono)
  consider "?j' = ?j" | "?j' = ?j + 1" | "?j + 2 \<le> ?j'"
    using jj by linarith
  then show ?thesis
  proof cases
    case 1
    then have "frem y 12 - frem y' 12 = y - y'"
      by (simp add: F(1) F'(1))
    then have "\<bar>frem y 12 - frem y' 12\<bar> = y' - y"
      using assms(2) by linarith
    with tri_lipschitz [of "frem y 12" "frem y' 12"] show ?thesis
      unfolding wave_def by (simp only:)
  next
    case 2
    then have "12 + frem y' 12 - frem y 12 = y' - y"
      by (simp add: F(1) F'(1))
    with tri_wrap [OF F(2,3) F'(2,3)] show ?thesis
      unfolding wave_def by (simp only:)
  next
    case 3
    then have "(of_int (?j + 2) :: rat) \<le> of_int ?j'"
      by (simp only: of_int_le_iff)
    then have "12 * (of_int ?j :: rat) + 24 \<le> 12 * of_int ?j'"
      by simp
    with F F' have "12 \<le> y' - y"
      by linarith
    with wave_range [of y] wave_range [of y'] show ?thesis
      by linarith
  qed
qed

lemma wave_lipschitz:
  assumes "0 \<le> y" and "0 \<le> y'"
  shows "\<bar>wave y - wave y'\<bar> \<le> \<bar>y - y'\<bar>"
proof (cases "y \<le> y'")
  case True
  with wave_lipschitz_le [OF assms(1) True] show ?thesis
    by simp
next
  case False
  then have "y' \<le> y"
    by simp
  from wave_lipschitz_le [OF assms(2) this] False show ?thesis
    by (simp add: abs_minus_commute)
qed

lemma fmul_commute: "fmul x y = fmul y x"
  by (simp add: fmul_def mult.commute)

lemma abs_mult_unit:
  fixes x y :: rat
  assumes "\<bar>x\<bar> \<le> 1" and "\<bar>y\<bar> \<le> 1"
  shows "\<bar>x * y\<bar> \<le> 1"
proof -
  have "\<bar>x\<bar> * \<bar>y\<bar> \<le> 1 * 1"
    using assms by (intro mult_mono) simp_all
  then show ?thesis
    by (simp add: abs_mult)
qed

lemma tri_unit:
  fixes v w :: rat
  shows "- 1 \<le> max (- 1) (min v (min w 1))" and "max (- 1) (min v (min w 1)) \<le> 1"
  by (simp_all add: min_le_iff_disj)

lemma percent_near:
  assumes "0 \<le> S \<and> S \<le> 100"
  shows "\<bar>fdiv (of_int S) 100 - of_int S / 100\<bar> \<le> 2 * eps"
    and "0 \<le> fdiv (of_int S) 100" and "fdiv (of_int S) 100 \<le> 1"
    and "0 \<le> (of_int S :: rat) / 100" and "(of_int S :: rat) / 100 \<le> 1"
proof -
  show u: "0 \<le> (of_int S :: rat) / 100" "(of_int S :: rat) / 100 \<le> 1"
    using assms by simp_all
  then have "\<bar>(of_int S :: rat) / 100\<bar> \<le> 1"
    by simp
  from fl_near1 [of "of_int S / 100" "of_int S / 100" 0, OF _ this]
  show "\<bar>fdiv (of_int S) 100 - of_int S / 100\<bar> \<le> 2 * eps"
    by (simp add: fdiv_def)
  show "0 \<le> fdiv (of_int S) 100" and "fdiv (of_int S) 100 \<le> 1"
    unfolding fdiv_def using fl_between [of 0 "of_int S / 100" 1] u by simp_all
qed

lemma channel_near:
  fixes H S L :: int and n :: rat
  assumes H: "0 \<le> H \<and> H \<le> 360" and S: "0 \<le> S \<and> S \<le> 100" and L: "0 \<le> L \<and> L \<le> 100"
    and n: "0 \<le> n \<and> n \<le> 8"
  defines "s1 \<equiv> fdiv (of_int S) 100" and "l1 \<equiv> fdiv (of_int L) 100"
  defines "k \<equiv> frem (fadd n (fdiv (of_int H) 30)) 12"
  defines "a \<equiv> fmul s1 (min l1 (fsub 1 l1))"
  shows "\<bar>fmul 255 (fsub l1 (fmul a (max (- 1) (min (fsub k 3) (min (fsub 9 k) 1)))))
          - 255 * chanExact n (of_int H / 30) (of_int S / 100) (of_int L / 100)\<bar> \<le> 16400 * eps"
proof -
  let ?s = "(of_int S :: rat) / 100" and ?l = "(of_int L :: rat) / 100"
    and ?q = "(of_int H :: rat) / 30"
  define ct where "ct = max (- 1) (min (fsub k 3) (min (fsub 9 k) 1))"
  note Sn = percent_near [OF S, folded s1_def] and Ln = percent_near [OF L, folded l1_def]
  \<comment> \<open>the factor \<open>a\<close>\<close>
  have "\<bar>1 - ?l\<bar> \<le> 1"
    using Ln(4,5) by (simp add: abs_le_iff)
  from fsub_near [of 1 1 0 l1 ?l 2, OF _ Ln(1) this]
  have c1: "\<bar>fsub 1 l1 - (1 - ?l)\<bar> \<le> 4 * eps"
    by simp
  have c1r: "0 \<le> fsub 1 l1" "fsub 1 l1 \<le> 1"
    unfolding fsub_def using fl_between [of 0 "1 - l1" 1] Ln(2,3) by simp_all
  have "\<bar>l1 - ?l\<bar> \<le> 4 * eps"
    using Ln(1) by (rule near_weaken) simp
  then have mu: "\<bar>min l1 (fsub 1 l1) - min ?l (1 - ?l)\<bar> \<le> 4 * eps"
    using c1 by (rule min_near)
  have mur: "\<bar>min l1 (fsub 1 l1)\<bar> \<le> 1"
    using c1r Ln(2,3) by (simp add: min_def)
  have muE: "\<bar>min ?l (1 - ?l)\<bar> \<le> 1"
    using Ln(4,5) by (simp add: min_def abs_le_iff)
  have sE: "\<bar>?s\<bar> \<le> 1"
    using Sn(4,5) by simp
  have aE: "\<bar>?s * min ?l (1 - ?l)\<bar> \<le> 1"
    using sE muE by (rule abs_mult_unit)
  from fmul_near [OF Sn(1) mu sE mur aE]
  have an: "\<bar>a - ?s * min ?l (1 - ?l)\<bar> \<le> 8 * eps"
    by (simp add: a_def)
  \<comment> \<open>the wave\<close>
  have qr: "0 \<le> ?q" "?q \<le> 12"
    using H by simp_all
  then have "\<bar>?q\<bar> \<le> 12"
    by simp
  from fl_near1 [of ?q ?q 0, OF _ this]
  have qn: "\<bar>fdiv (of_int H) 30 - ?q\<bar> \<le> 13 * eps"
    by (simp add: fdiv_def)
  have qf: "0 \<le> fdiv (of_int H) 30"
    unfolding fdiv_def using qr(1) by (rule fl_nonneg)
  have "\<bar>n + ?q\<bar> \<le> 20"
    using n qr by (simp add: abs_le_iff)
  from fadd_near [of n n 0, OF _ qn this]
  have yn: "\<bar>fadd n (fdiv (of_int H) 30) - (n + ?q)\<bar> \<le> 34 * eps"
    by simp
  have y0: "0 \<le> fadd n (fdiv (of_int H) 30)"
    unfolding fadd_def using n qf by (intro fl_nonneg) simp
  have yE0: "0 \<le> n + ?q"
    using n qr by simp
  note K = frem_nonneg(2,3) [OF y0, folded k_def]
  have "\<bar>k - 3\<bar> \<le> 12" "\<bar>9 - k\<bar> \<le> 12"
    using K by (simp_all add: abs_le_iff)
  from fsub_near [of k k 0 3 3 0, OF _ _ this(1)] fsub_near [of 9 9 0 k k 0, OF _ _ this(2)]
  have "\<bar>fsub k 3 - (k - 3)\<bar> \<le> 13 * eps" "\<bar>fsub 9 k - (9 - k)\<bar> \<le> 13 * eps"
    by simp_all
  then have "\<bar>max (- 1) (min (fsub k 3) (min (fsub 9 k) 1)) - max (- 1) (min (k - 3) (min (9 - k) 1))\<bar>
      \<le> 13 * eps"
    by (rule tri_near)
  then have w1: "\<bar>ct - wave (fadd n (fdiv (of_int H) 30))\<bar> \<le> 13 * eps"
    by (simp only: ct_def wave_def k_def)
  have w2: "\<bar>wave (fadd n (fdiv (of_int H) 30)) - wave (n + ?q)\<bar> \<le> 34 * eps"
    using wave_lipschitz [OF y0 yE0] yn by linarith
  from w1 w2 have wn: "\<bar>ct - wave (n + ?q)\<bar> \<le> 47 * eps"
    by linarith
  have "- 1 \<le> ct" "ct \<le> 1"
    unfolding ct_def by (rule tri_unit)+
  then have wr: "\<bar>ct\<bar> \<le> 1"
    by linarith
  have wE: "\<bar>wave (n + ?q)\<bar> \<le> 1"
    using wave_range [of "n + ?q"] by linarith
  \<comment> \<open>the channel\<close>
  have pE: "\<bar>?s * min ?l (1 - ?l) * wave (n + ?q)\<bar> \<le> 1"
    using aE wE by (rule abs_mult_unit)
  from fmul_near [OF an wn aE wr pE]
  have pn: "\<bar>fmul a ct - ?s * min ?l (1 - ?l) * wave (n + ?q)\<bar> \<le> 57 * eps"
    by simp
  have lE: "\<bar>?l\<bar> \<le> 1"
    using Ln(4,5) by simp
  have fE: "\<bar>chanExact n ?q ?s ?l\<bar> \<le> 2"
    unfolding chanExact_def using pE lE by linarith
  from fsub_near [OF Ln(1) pn fE [unfolded chanExact_def]]
  have fn: "\<bar>fsub l1 (fmul a ct) - chanExact n ?q ?s ?l\<bar> \<le> 62 * eps"
    by (simp add: chanExact_def)
  from fscale_near [OF fn fE, of 255]
  have "\<bar>fmul (fsub l1 (fmul a ct)) 255 - chanExact n ?q ?s ?l * 255\<bar> \<le> 16321 * eps"
    by simp
  then have "\<bar>fmul 255 (fsub l1 (fmul a ct)) - 255 * chanExact n ?q ?s ?l\<bar> \<le> 16321 * eps"
    by (simp only: fmul_commute [of 255] mult.commute [of 255])
  then have "\<bar>fmul 255 (fsub l1 (fmul a ct)) - 255 * chanExact n ?q ?s ?l\<bar> \<le> 16400 * eps"
    by (rule near_weaken) simp
  then show ?thesis
    by (simp only: ct_def)
qed

subsection \<open>The conversions invert each other in exact arithmetic\<close>

lemma wave_pieces:
  "0 \<le> y \<Longrightarrow> y \<le> 2 \<Longrightarrow> wave y = - 1"
  "2 \<le> y \<Longrightarrow> y \<le> 4 \<Longrightarrow> wave y = y - 3"
  "4 \<le> y \<Longrightarrow> y \<le> 8 \<Longrightarrow> wave y = 1"
  "8 \<le> y \<Longrightarrow> y \<le> 10 \<Longrightarrow> wave y = 9 - y"
  "10 \<le> y \<Longrightarrow> y < 12 \<Longrightarrow> wave y = - 1"
  "12 \<le> y \<Longrightarrow> y \<le> 14 \<Longrightarrow> wave y = - 1"
  "14 \<le> y \<Longrightarrow> y \<le> 16 \<Longrightarrow> wave y = y - 15"
  "16 \<le> y \<Longrightarrow> y \<le> 20 \<Longrightarrow> wave y = 1"
proof -
  show "wave y = - 1" if "0 \<le> y" "y \<le> 2"
    using that by (simp add: wave_def frem_small)
  show "wave y = y - 3" if "2 \<le> y" "y \<le> 4"
    using that by (simp add: wave_def frem_small)
  show "wave y = 1" if "4 \<le> y" "y \<le> 8"
    using that by (simp add: wave_def frem_small)
  show "wave y = 9 - y" if "8 \<le> y" "y \<le> 10"
    using that by (simp add: wave_def frem_small)
  show "wave y = - 1" if "10 \<le> y" "y < 12"
    using that by (simp add: wave_def frem_small)
  show "wave y = - 1" if "12 \<le> y" "y \<le> 14"
    using that by (simp add: wave_def frem_next)
  show "wave y = y - 15" if "14 \<le> y" "y \<le> 16"
    using that by (simp add: wave_def frem_next)
  show "wave y = 1" if "16 \<le> y" "y \<le> 20"
    using that by (simp add: wave_def frem_next)
qed

lemma affine_id:
  fixes D E N a0 a1 :: int and t w :: rat
  assumes "of_int D * t = of_int E" and "w = of_int a0 + of_int a1 * t" and "a0 * D + a1 * E = N"
  shows "of_int D * w = of_int N"
proof -
  have "of_int D * w = of_int a0 * of_int D + of_int a1 * (of_int D * t)"
    unfolding assms(2) by (simp add: algebra_simps)
  also have "\<dots> = of_int (a0 * D + a1 * E)"
    unfolding assms(1) by simp
  finally show ?thesis
    unfolding assms(3) .
qed

lemma wave_hue:
  fixes cr cg cb :: int
  defines "M \<equiv> max (max cr cg) cb" and "m \<equiv> min (min cr cg) cb"
  assumes lt: "m < M"
  shows "of_int (M - m) * wave (0 + 2 * hueExact cr cg cb) = of_int (M + m - 2 * cr)
       \<and> of_int (M - m) * wave (8 + 2 * hueExact cr cg cb) = of_int (M + m - 2 * cg)
       \<and> of_int (M - m) * wave (4 + 2 * hueExact cr cg cb) = of_int (M + m - 2 * cb)"
proof -
  have ord: "m \<le> cr \<and> cr \<le> M" "m \<le> cg \<and> cg \<le> M" "m \<le> cb \<and> cb \<le> M"
    by (auto simp: M_def m_def)
  have Mc: "M = cr \<or> M = cg \<or> M = cb" and mc: "m = cr \<or> m = cg \<or> m = cb"
    by (auto simp: M_def m_def max_def min_def)
  have D: "(0::rat) < of_int (M - m)"
    using lt by simp
  have hx: "hueExact cr cg cb =
      (if cr = M then of_int (cg - cb) / of_int (M - m) + (if cg < cb then 6 else 0)
       else if cg = M then of_int (cb - cr) / of_int (M - m) + 2
       else of_int (cr - cg) / of_int (M - m) + 4)"
    unfolding hueExact_def Let_def M_def m_def by (rule refl)
  consider (a) "cr = M" "cg < cb" | (b) "cr = M" "\<not> cg < cb" | (c1) "cr \<noteq> M" "cg = M" "cr \<le> cb" | (c2) "cr \<noteq> M" "cg = M" "\<not> cr \<le> cb" | (e1) "cr \<noteq> M" "cg \<noteq> M" "cg \<le> cr" | (e2) "cr \<noteq> M" "cg \<noteq> M" "\<not> cg \<le> cr"
    by blast
  then show ?thesis
  proof cases
    case a
    define t :: rat where "t = of_int (cg - cb) / of_int (M - m)"
    have mm: "m = cg"
      using a ord Mc mc lt by auto
    have sg: "cg < cb"
      using a ord Mc mc lt by auto
    have Dt: "of_int (M - m) * t = of_int (cg - cb)"
      using D by (simp add: t_def)
    have hE: "hueExact cr cg cb = t + 6"
      unfolding hx if_P [OF a(1)] if_P [OF a(2)] t_def by simp
    have t: "- 1 \<le> t" "t < 0"
      using ratio_unit [OF lt ord(2) ord(3)] sg D
      by (simp_all add: t_def divide_neg_pos)
    have w0: "wave (0 + 2 * hueExact cr cg cb) = of_int (-1) + of_int (0) * t"
      unfolding hE using t by (subst wave_pieces(5)) simp_all
    have i0: "(-1) * (M - m) + (0) * (cg - cb) = M + m - 2 * cr"
      using a mm Mc by auto
    have w8: "wave (8 + 2 * hueExact cr cg cb) = of_int (1) + of_int (0) * t"
      unfolding hE using t by (subst wave_pieces(8)) simp_all
    have i8: "(1) * (M - m) + (0) * (cg - cb) = M + m - 2 * cg"
      using a mm Mc by auto
    have w4: "wave (4 + 2 * hueExact cr cg cb) = of_int (1) + of_int (2) * t"
      unfolding hE using t by (subst wave_pieces(7)) simp_all
    have i4: "(1) * (M - m) + (2) * (cg - cb) = M + m - 2 * cb"
      using a mm Mc by auto
    from affine_id [OF Dt w0 i0] affine_id [OF Dt w8 i8] affine_id [OF Dt w4 i4] show ?thesis
      by (intro conjI)
  next
    case b
    define t :: rat where "t = of_int (cg - cb) / of_int (M - m)"
    have mm: "m = cb"
      using b ord Mc mc lt by auto
    have sg: "cb \<le> cg"
      using b ord Mc mc lt by auto
    have Dt: "of_int (M - m) * t = of_int (cg - cb)"
      using D by (simp add: t_def)
    have hE: "hueExact cr cg cb = t + 0"
      unfolding hx if_P [OF b(1)] if_not_P [OF b(2)] t_def by simp
    have t: "0 \<le> t" "t \<le> 1"
      using ratio_unit [OF lt ord(2) ord(3)] sg D
      by (simp_all add: t_def )
    have w0: "wave (0 + 2 * hueExact cr cg cb) = of_int (-1) + of_int (0) * t"
      unfolding hE using t by (subst wave_pieces(1)) simp_all
    have i0: "(-1) * (M - m) + (0) * (cg - cb) = M + m - 2 * cr"
      using b mm Mc by auto
    have w8: "wave (8 + 2 * hueExact cr cg cb) = of_int (1) + of_int (-2) * t"
      unfolding hE using t by (subst wave_pieces(4)) simp_all
    have i8: "(1) * (M - m) + (-2) * (cg - cb) = M + m - 2 * cg"
      using b mm Mc by auto
    have w4: "wave (4 + 2 * hueExact cr cg cb) = of_int (1) + of_int (0) * t"
      unfolding hE using t by (subst wave_pieces(3)) simp_all
    have i4: "(1) * (M - m) + (0) * (cg - cb) = M + m - 2 * cb"
      using b mm Mc by auto
    from affine_id [OF Dt w0 i0] affine_id [OF Dt w8 i8] affine_id [OF Dt w4 i4] show ?thesis
      by (intro conjI)
  next
    case c1
    define t :: rat where "t = of_int (cb - cr) / of_int (M - m)"
    have mm: "m = cr"
      using c1 ord Mc mc lt by auto
    have sg: "cr \<le> cb"
      using c1 ord Mc mc lt by auto
    have Dt: "of_int (M - m) * t = of_int (cb - cr)"
      using D by (simp add: t_def)
    have hE: "hueExact cr cg cb = t + 2"
      unfolding hx if_not_P [OF c1(1)] if_P [OF c1(2)] t_def by simp
    have t: "0 \<le> t" "t \<le> 1"
      using ratio_unit [OF lt ord(3) ord(1)] sg D
      by (simp_all add: t_def )
    have w0: "wave (0 + 2 * hueExact cr cg cb) = of_int (1) + of_int (0) * t"
      unfolding hE using t by (subst wave_pieces(3)) simp_all
    have i0: "(1) * (M - m) + (0) * (cb - cr) = M + m - 2 * cr"
      using c1 mm Mc by auto
    have w8: "wave (8 + 2 * hueExact cr cg cb) = of_int (-1) + of_int (0) * t"
      unfolding hE using t by (subst wave_pieces(6)) simp_all
    have i8: "(-1) * (M - m) + (0) * (cb - cr) = M + m - 2 * cg"
      using c1 mm Mc by auto
    have w4: "wave (4 + 2 * hueExact cr cg cb) = of_int (1) + of_int (-2) * t"
      unfolding hE using t by (subst wave_pieces(4)) simp_all
    have i4: "(1) * (M - m) + (-2) * (cb - cr) = M + m - 2 * cb"
      using c1 mm Mc by auto
    from affine_id [OF Dt w0 i0] affine_id [OF Dt w8 i8] affine_id [OF Dt w4 i4] show ?thesis
      by (intro conjI)
  next
    case c2
    define t :: rat where "t = of_int (cb - cr) / of_int (M - m)"
    have mm: "m = cb"
      using c2 ord Mc mc lt by auto
    have sg: "cb < cr"
      using c2 ord Mc mc lt by auto
    have Dt: "of_int (M - m) * t = of_int (cb - cr)"
      using D by (simp add: t_def)
    have hE: "hueExact cr cg cb = t + 2"
      unfolding hx if_not_P [OF c2(1)] if_P [OF c2(2)] t_def by simp
    have t: "- 1 \<le> t" "t < 0"
      using ratio_unit [OF lt ord(3) ord(1)] sg D
      by (simp_all add: t_def divide_neg_pos)
    have w0: "wave (0 + 2 * hueExact cr cg cb) = of_int (1) + of_int (2) * t"
      unfolding hE using t by (subst wave_pieces(2)) simp_all
    have i0: "(1) * (M - m) + (2) * (cb - cr) = M + m - 2 * cr"
      using c2 mm Mc by auto
    have w8: "wave (8 + 2 * hueExact cr cg cb) = of_int (-1) + of_int (0) * t"
      unfolding hE using t by (subst wave_pieces(5)) simp_all
    have i8: "(-1) * (M - m) + (0) * (cb - cr) = M + m - 2 * cg"
      using c2 mm Mc by auto
    have w4: "wave (4 + 2 * hueExact cr cg cb) = of_int (1) + of_int (0) * t"
      unfolding hE using t by (subst wave_pieces(3)) simp_all
    have i4: "(1) * (M - m) + (0) * (cb - cr) = M + m - 2 * cb"
      using c2 mm Mc by auto
    from affine_id [OF Dt w0 i0] affine_id [OF Dt w8 i8] affine_id [OF Dt w4 i4] show ?thesis
      by (intro conjI)
  next
    case e1
    define t :: rat where "t = of_int (cr - cg) / of_int (M - m)"
    have mm: "m = cg"
      using e1 ord Mc mc lt by auto
    have sg: "cg \<le> cr"
      using e1 ord Mc mc lt by auto
    have Dt: "of_int (M - m) * t = of_int (cr - cg)"
      using D by (simp add: t_def)
    have hE: "hueExact cr cg cb = t + 4"
      unfolding hx if_not_P [OF e1(1)] if_not_P [OF e1(2)] t_def by simp
    have t: "0 \<le> t" "t \<le> 1"
      using ratio_unit [OF lt ord(1) ord(2)] sg D
      by (simp_all add: t_def )
    have w0: "wave (0 + 2 * hueExact cr cg cb) = of_int (1) + of_int (-2) * t"
      unfolding hE using t by (subst wave_pieces(4)) simp_all
    have i0: "(1) * (M - m) + (-2) * (cr - cg) = M + m - 2 * cr"
      using e1 mm Mc by auto
    have w8: "wave (8 + 2 * hueExact cr cg cb) = of_int (1) + of_int (0) * t"
      unfolding hE using t by (subst wave_pieces(8)) simp_all
    have i8: "(1) * (M - m) + (0) * (cr - cg) = M + m - 2 * cg"
      using e1 mm Mc by auto
    have w4: "wave (4 + 2 * hueExact cr cg cb) = of_int (-1) + of_int (0) * t"
      unfolding hE using t by (subst wave_pieces(6)) simp_all
    have i4: "(-1) * (M - m) + (0) * (cr - cg) = M + m - 2 * cb"
      using e1 mm Mc by auto
    from affine_id [OF Dt w0 i0] affine_id [OF Dt w8 i8] affine_id [OF Dt w4 i4] show ?thesis
      by (intro conjI)
  next
    case e2
    define t :: rat where "t = of_int (cr - cg) / of_int (M - m)"
    have mm: "m = cr"
      using e2 ord Mc mc lt by auto
    have sg: "cr < cg"
      using e2 ord Mc mc lt by auto
    have Dt: "of_int (M - m) * t = of_int (cr - cg)"
      using D by (simp add: t_def)
    have hE: "hueExact cr cg cb = t + 4"
      unfolding hx if_not_P [OF e2(1)] if_not_P [OF e2(2)] t_def by simp
    have t: "- 1 \<le> t" "t < 0"
      using ratio_unit [OF lt ord(1) ord(2)] sg D
      by (simp_all add: t_def divide_neg_pos)
    have w0: "wave (0 + 2 * hueExact cr cg cb) = of_int (1) + of_int (0) * t"
      unfolding hE using t by (subst wave_pieces(3)) simp_all
    have i0: "(1) * (M - m) + (0) * (cr - cg) = M + m - 2 * cr"
      using e2 mm Mc by auto
    have w8: "wave (8 + 2 * hueExact cr cg cb) = of_int (1) + of_int (2) * t"
      unfolding hE using t by (subst wave_pieces(7)) simp_all
    have i8: "(1) * (M - m) + (2) * (cr - cg) = M + m - 2 * cg"
      using e2 mm Mc by auto
    have w4: "wave (4 + 2 * hueExact cr cg cb) = of_int (-1) + of_int (0) * t"
      unfolding hE using t by (subst wave_pieces(5)) simp_all
    have i4: "(-1) * (M - m) + (0) * (cr - cg) = M + m - 2 * cb"
      using e2 mm Mc by auto
    from affine_id [OF Dt w0 i0] affine_id [OF Dt w8 i8] affine_id [OF Dt w4 i4] show ?thesis
      by (intro conjI)
  qed
qed

lemma half_le:
  fixes q :: rat
  shows "q \<le> 255 \<Longrightarrow> q / 510 \<le> 1 - q / 510" and "256 \<le> q \<Longrightarrow> 1 - q / 510 \<le> q / 510"
  by simp_all

lemma sat_mu:
  fixes M m :: int
  assumes M: "0 \<le> M \<and> M \<le> 255" and m: "0 \<le> m \<and> m \<le> 255" and lt: "m < M"
  shows "satExact M m * min (lightExact M m) (1 - lightExact M m) = of_int (M - m) / 510"
proof (cases "M + m \<le> 255")
  case True
  then have "(of_int (M + m) :: rat) \<le> 255"
    by (metis of_int_le_iff of_int_numeral)
  then have "lightExact M m \<le> 1 - lightExact M m"
    unfolding lightExact_def by (rule half_le)
  then have mu: "min (lightExact M m) (1 - lightExact M m) = of_int (M + m) / 510"
    unfolding lightExact_def by (rule min_absorb1)
  have "0 < M + m"
    using m lt by simp
  then have "(of_int (M + m) :: rat) \<noteq> 0"
    by (metis of_int_eq_0_iff less_irrefl)
  then show ?thesis
    unfolding mu satExact_def using True by simp
next
  case False
  then have "256 \<le> M + m"
    by simp
  then have "256 \<le> (of_int (M + m) :: rat)"
    by (metis of_int_le_iff of_int_numeral)
  then have "1 - lightExact M m \<le> lightExact M m"
    unfolding lightExact_def by (rule half_le)
  then have "min (lightExact M m) (1 - lightExact M m) = 1 - of_int (M + m) / 510"
    unfolding lightExact_def by (rule min_absorb2)
  also have "\<dots> = of_int (510 - M - m) / 510"
    by (simp add: field_simps)
  finally have mu: "min (lightExact M m) (1 - lightExact M m) = of_int (510 - M - m) / 510" .
  have "0 < 510 - M - m"
    using M lt by simp
  then have "(of_int (510 - M - m) :: rat) \<noteq> 0"
    by (metis of_int_eq_0_iff less_irrefl)
  then show ?thesis
    unfolding mu satExact_def using False by simp
qed

lemma chanExact_id:
  fixes cr cg cb :: int
  defines "M \<equiv> max (max cr cg) cb" and "m \<equiv> min (min cr cg) cb"
  assumes cr: "0 \<le> cr \<and> cr \<le> 255" and cg: "0 \<le> cg \<and> cg \<le> 255"
    and cb: "0 \<le> cb \<and> cb \<le> 255" and lt: "m < M"
  shows "chanExact 0 (2 * hueExact cr cg cb) (satExact M m) (lightExact M m) = of_int cr / 255"
    and "chanExact 8 (2 * hueExact cr cg cb) (satExact M m) (lightExact M m) = of_int cg / 255"
    and "chanExact 4 (2 * hueExact cr cg cb) (satExact M m) (lightExact M m) = of_int cb / 255"
proof -
  have Mb: "0 \<le> M \<and> M \<le> 255" and mb: "0 \<le> m \<and> m \<le> 255"
    using cr cg cb by (auto simp: M_def m_def)
  note W = wave_hue [of cr cg cb, folded M_def m_def, OF lt]
  note A = sat_mu [OF Mb mb lt]
  have gen: "chanExact n (2 * hueExact cr cg cb) (satExact M m) (lightExact M m) = of_int X / 255"
    if "of_int (M - m) * wave (n + 2 * hueExact cr cg cb) = (of_int (M + m - 2 * X) :: rat)"
    for n and X :: int
  proof -
    have "chanExact n (2 * hueExact cr cg cb) (satExact M m) (lightExact M m)
        = lightExact M m - (of_int (M - m) * wave (n + 2 * hueExact cr cg cb)) / 510"
      unfolding chanExact_def A by simp
    also have "\<dots> = of_int (M + m) / 510 - of_int (M + m - 2 * X) / 510"
      unfolding that lightExact_def ..
    also have "\<dots> = of_int X / 255"
      by (simp add: field_simps)
    finally show ?thesis .
  qed
  show "chanExact 0 (2 * hueExact cr cg cb) (satExact M m) (lightExact M m) = of_int cr / 255"
    by (rule gen) (rule W [THEN conjunct1])
  show "chanExact 8 (2 * hueExact cr cg cb) (satExact M m) (lightExact M m) = of_int cg / 255"
    by (rule gen) (rule W [THEN conjunct2, THEN conjunct1])
  show "chanExact 4 (2 * hueExact cr cg cb) (satExact M m) (lightExact M m) = of_int cb / 255"
    by (rule gen) (rule W [THEN conjunct2, THEN conjunct2])
qed

lemma chanExact_perturb:
  fixes n hq hq' s0 s' l0 l' dh ds dl A :: rat
  assumes h: "\<bar>hq' - hq\<bar> \<le> dh" and s: "\<bar>s' - s0\<bar> \<le> ds" and l: "\<bar>l' - l0\<bar> \<le> dl"
    and l': "0 \<le> l' \<and> l' \<le> 1" and s0: "\<bar>s0\<bar> \<le> 1"
    and a0: "\<bar>s0 * min l0 (1 - l0)\<bar> \<le> A" and y: "0 \<le> n + hq" and y': "0 \<le> n + hq'"
  shows "\<bar>chanExact n hq' s' l' - chanExact n hq s0 l0\<bar> \<le> dl + (ds / 2 + dl) + A * dh"
proof -
  define mu' where "mu' = min l' (1 - l')"
  define mu0 where "mu0 = min l0 (1 - l0)"
  define w' where "w' = wave (n + hq')"
  define w0 where "w0 = wave (n + hq)"
  have "\<bar>(1 - l') - (1 - l0)\<bar> \<le> dl"
    using l by linarith
  with l have mu: "\<bar>mu' - mu0\<bar> \<le> dl"
    unfolding mu'_def mu0_def by (rule min_near)
  have mur: "\<bar>mu'\<bar> \<le> 1 / 2"
    unfolding mu'_def using l' by (simp add: min_def abs_le_iff) 
  from mult_near [OF s mu s0 mur] have a: "\<bar>s' * mu' - s0 * mu0\<bar> \<le> ds / 2 + dl"
    by simp
  have "\<bar>w' - w0\<bar> \<le> \<bar>(n + hq') - (n + hq)\<bar>"
    unfolding w'_def w0_def using y' y by (rule wave_lipschitz)
  with h have w: "\<bar>w' - w0\<bar> \<le> dh"
    by linarith
  have wr: "\<bar>w'\<bar> \<le> 1"
    unfolding w'_def using wave_range [of "n + hq'"] by linarith
  from mult_near [OF a w a0 [folded mu0_def] wr]
  have "\<bar>s' * mu' * w' - s0 * mu0 * w0\<bar> \<le> (ds / 2 + dl) + A * dh"
    by simp
  with l have "\<bar>(l' - s' * mu' * w') - (l0 - s0 * mu0 * w0)\<bar> \<le> dl + (ds / 2 + dl) + A * dh"
    by linarith
  then show ?thesis
    by (simp only: chanExact_def mu'_def mu0_def w'_def w0_def)
qed

subsection \<open>The round trip\<close>

lemma hexDigit_props:
  assumes "0 \<le> d" and "d < 16"
  shows "isHexDigit (hexDigit d)" and "hexValue (hexDigit d) = d"
proof -
  from assms have "d \<in> {0, 1, 2, 3, 4, 5, 6, 7, 8, 9, 10, 11, 12, 13, 14, 15}"
    by simp presburger
  then show "isHexDigit (hexDigit d)" and "hexValue (hexDigit d) = d"
    by (auto simp: hexDigit_def isHexDigit_def hexValue_def)
qed

lemma hexToHSL_RGBToHex:
  assumes cr: "0 \<le> cr \<and> cr \<le> 255" and cg: "0 \<le> cg \<and> cg \<le> 255"
    and cb: "0 \<le> cb \<and> cb \<le> 255"
  shows "hexToHSL (RGBToHex cr cg cb) = Some (RGBToHSL cr cg cb)"
proof -
  let ?t = "[hexDigit (cr div 16), hexDigit (cr mod 16), hexDigit (cg div 16), hexDigit (cg mod 16),
             hexDigit (cb div 16), hexDigit (cb mod 16)]"
  have eq: "RGBToHex cr cg cb = CHR ''#'' # ?t"
    using assms by (simp add: RGBToHex_def toHex_byte)
  have digit: "0 \<le> c div 16 \<and> c div 16 < 16 \<and> 0 \<le> c mod 16 \<and> c mod 16 < 16"
    if "0 \<le> c \<and> c \<le> 255" for c :: int
    using that by auto
  note d = digit [OF cr] digit [OF cg] digit [OF cb]
  have len: "length ?t = 6" and all: "list_all isHexDigit ?t"
    using d by (simp_all add: hexDigit_props)
  have "channels ?t = (cr, cg, cb)"
    using d by (simp add: channels_def hexDigit_props)
  with hexToHSL_digits(1,2) [OF len all] show ?thesis
    unfolding eq by simp
qed

lemma Math_round_within:
  assumes "\<bar>y - of_int X\<bar> < 11 / 2"
  shows "\<bar>Math_round y - X\<bar> \<le> 5"
proof -
  from assms have "y + 1 / 2 < of_int X + 6" and "of_int X - 5 \<le> y + 1 / 2"
    by linarith+
  then have "y + 1 / 2 < of_int (X + 6)" and "of_int (X - 5) \<le> y + 1 / 2"
    by simp_all
  then have "\<lfloor>y + 1 / 2\<rfloor> < X + 6" and "X - 5 \<le> \<lfloor>y + 1 / 2\<rfloor>"
    by (simp_all only: floor_less_iff le_floor_iff)
  then show ?thesis
    by (simp add: Math_round_def abs_le_iff)
qed

lemma hueExact_nonneg:
  fixes cr cg cb :: int
  assumes "min (min cr cg) cb < max (max cr cg) cb"
  shows "0 \<le> hueExact cr cg cb"
proof -
  define M where "M = max (max cr cg) cb"
  define m where "m = min (min cr cg) cb"
  have lt: "m < M"
    using assms by (simp add: M_def m_def)
  have ord: "m \<le> cr \<and> cr \<le> M" "m \<le> cg \<and> cg \<le> M" "m \<le> cb \<and> cb \<le> M"
    by (auto simp: M_def m_def)
  have hx: "hueExact cr cg cb =
      (if cr = M then of_int (cg - cb) / of_int (M - m) + (if cg < cb then 6 else 0)
       else if cg = M then of_int (cb - cr) / of_int (M - m) + 2
       else of_int (cr - cg) / of_int (M - m) + 4)"
    unfolding hueExact_def Let_def M_def m_def by (rule refl)
  note q1 = ratio_unit [OF lt ord(2) ord(3)] and q2 = ratio_unit(1) [OF lt ord(3) ord(1)]
    and q3 = ratio_unit(1) [OF lt ord(1) ord(2)]
  consider (a) "cr = M" "cg < cb" | (b) "cr = M" "\<not> cg < cb" | (c) "cr \<noteq> M" "cg = M"
    | (e) "cr \<noteq> M" "cg \<noteq> M"
    by blast
  then show ?thesis
  proof cases
    case a
    with q1(1) show ?thesis
      unfolding hx if_P [OF a(1)] if_P [OF a(2)] by linarith
  next
    case b
    then have "cb \<le> cg"
      by simp
    from q1(4) [OF this] show ?thesis
      unfolding hx if_P [OF b(1)] if_not_P [OF b(2)] by linarith
  next
    case c
    with q2 show ?thesis
      unfolding hx if_not_P [OF c(1)] if_P [OF c(2)] by linarith
  next
    case e
    with q3 show ?thesis
      unfolding hx if_not_P [OF e(1)] if_not_P [OF e(2)] by linarith
  qed
qed

lemma HSLToRGB_channel:
  "HSLToRGB H S L =
     \<lparr>r = Math_round (channel 0 H S L), g = Math_round (channel 8 H S L),
      b = Math_round (channel 4 H S L)\<rparr>"
  by (simp add: HSLToRGB_def channel_def Let_def)

lemma satExact_unit:
  fixes M m :: int
  assumes M: "0 \<le> M \<and> M \<le> 255" and m: "0 \<le> m \<and> m \<le> 255" and lt: "m < M"
  shows "\<bar>satExact M m\<bar> \<le> 1"
proof -
  have "M - m \<le> M + m" "M - m \<le> 510 - M - m"
    using M m by simp_all
  then have "(of_int (M - m) :: rat) \<le> of_int (M + m)" "(of_int (M - m) :: rat) \<le> of_int (510 - M - m)"
    by (simp_all only: of_int_le_iff)
  moreover have "(0::rat) < of_int (M - m)"
    using lt by simp
  ultimately show ?thesis
    unfolding satExact_def by (auto simp: abs_le_iff simp del: of_int_diff of_int_add)
qed

lemma roundtrip_channel:
  fixes cr cg cb X :: int and n :: rat
  defines "M \<equiv> max (max cr cg) cb" and "m \<equiv> min (min cr cg) cb"
  defines "c \<equiv> RGBToHSL cr cg cb"
  assumes cr: "0 \<le> cr \<and> cr \<le> 255" and cg: "0 \<le> cg \<and> cg \<le> 255"
    and cb: "0 \<le> cb \<and> cb \<le> 255" and n: "0 \<le> n \<and> n \<le> 8" and X: "m \<le> X \<and> X \<le> M"
    and id: "m < M \<Longrightarrow>
      chanExact n (2 * hueExact cr cg cb) (satExact M m) (lightExact M m) = of_int X / 255"
  shows "\<bar>Math_round (channel n (h c) (s c) (l c)) - X\<bar> \<le> 5"
proof -
  define dl where "dl = 1 / 2 + 1000000 * eps"
  have dl: "0 \<le> dl" "dl \<le> 1 / 2 + 1 / 1000000"
    using eps_pos eps_small by (simp_all add: dl_def)
  have Mb: "0 \<le> M \<and> M \<le> 255" and mb: "0 \<le> m \<and> m \<le> 255"
    using cr cg cb by (auto simp: M_def m_def)
  note R = RGBToHSL_range [OF cr cg cb, folded c_def]
  note N = RGBToHSL_near [OF cr cg cb, folded c_def M_def m_def dl_def]
  let ?q = "(of_int (h c) :: rat) / 30" and ?s = "(of_int (s c) :: rat) / 100"
    and ?l = "(of_int (l c) :: rat) / 100"
  have H: "0 \<le> h c \<and> h c \<le> 360" and S: "0 \<le> s c \<and> s c \<le> 100" and L: "0 \<le> l c \<and> l c \<le> 100"
    using R by simp_all
  have lr: "0 \<le> ?l \<and> ?l \<le> 1"
    using L by simp
  have ln: "\<bar>?l - lightExact M m\<bar> \<le> dl / 100"
    using N(1) by linarith
  \<comment> \<open>the exact formula at the rounded triple is close to the channel\<close>
  have E: "\<bar>chanExact n ?q ?s ?l - of_int X / 255\<bar> \<le> dl / 24"
  proof (cases "M = m")
    case True
    with N(2) have "h c = 0" "s c = 0"
      by simp_all
    then have "chanExact n ?q ?s ?l = ?l"
      by (simp add: chanExact_def)
    moreover have "X = M"
      using X True by simp
    then have "lightExact M m = of_int X / 255"
      using True by (simp add: lightExact_def)
    ultimately show ?thesis
      using ln dl(1) by linarith
  next
    case False
    with X have lt: "m < M"
      by linarith
    have sn: "\<bar>?s - satExact M m\<bar> \<le> dl / 100"
      using N(3) [OF False] by linarith
    have hn: "\<bar>?q - 2 * hueExact cr cg cb\<bar> \<le> dl / 30"
      using N(4) [OF False] by linarith
    have a0: "\<bar>satExact M m * min (lightExact M m) (1 - lightExact M m)\<bar> \<le> 1 / 2"
    proof -
      have "0 < M - m" "M - m \<le> 255"
        using lt Mb mb by simp_all
      then have "(0::rat) < of_int (M - m)" "(of_int (M - m) :: rat) \<le> 255"
        by (simp only: of_int_0_less_iff, metis of_int_le_iff of_int_numeral)
      then show ?thesis
        unfolding sat_mu [OF Mb mb lt] by (simp add: abs_le_iff)
    qed
    have y: "0 \<le> n + 2 * hueExact cr cg cb"
      using n hueExact_nonneg [of cr cg cb] lt by (simp add: M_def m_def)
    have y': "0 \<le> n + ?q"
      using n H by simp
    from chanExact_perturb [OF hn sn ln lr satExact_unit [OF Mb mb lt] a0 y y']
    have "\<bar>chanExact n ?q ?s ?l
           - chanExact n (2 * hueExact cr cg cb) (satExact M m) (lightExact M m)\<bar>
        \<le> dl / 100 + (dl / 100 / 2 + dl / 100) + 1 / 2 * (dl / 30)" .
    then show ?thesis
      unfolding id [OF lt] by simp
  qed
  \<comment> \<open>the computed value is close to the exact formula\<close>
  have "\<bar>channel n (h c) (s c) (l c) - 255 * chanExact n ?q ?s ?l\<bar> \<le> 16400 * eps"
    unfolding channel_def using H S L n by (rule channel_near)
  moreover have "16400 * eps \<le> 1 / 1000000"
    using eps_small by simp
  ultimately have "\<bar>channel n (h c) (s c) (l c) - of_int X\<bar> < 11 / 2"
    using E dl(2) by linarith
  then show ?thesis
    by (rule Math_round_within)
qed

lemma channel_eval:
  assumes "fdiv (of_int S) 100 = s1" and "fdiv (of_int L) 100 = l1"
    and "fmul s1 (min l1 (fsub 1 l1)) = a"
    and "frem (fadd n (fdiv (of_int H) 30)) 12 = k"
    and "max (- 1) (min (fsub k 3) (min (fsub 9 k) 1)) = w"
    and "fsub l1 (fmul a w) = f"
  shows "channel n H S L = fmul 255 f"
  unfolding channel_def assms(1,2) assms(3) assms(4) assms(5) assms(6) ..

lemma RGBToHSL_2_228_230: "RGBToHSL 2 228 230 = \<lparr>h = 181, s = 98, l = 45\<rparr>"
proof -
  have "RGBToHSL 2 228 230 =
      \<lparr>h = Math_round (fmul (4516768047333567 / 9007199254740992) 360),
       s = Math_round (fmul (2212975678966537 / 2251799813685248) 100), l = Math_round (fmul (8194785204313373 / 18014398509481984) 100)\<rparr>"
    by (rule RGBToHSL_eval [where x = "282578800148737 / 36028797018963968" and y = "8053495804239005 / 9007199254740992" and z = "8124140504276189 / 9007199254740992"
          and mx = "8124140504276189 / 9007199254740992" and mn = "282578800148737 / 36028797018963968" and d = "8053495804239005 / 9007199254740992"
          and hq = "6775152071000351 / 2251799813685248"])
      code_simp+
  moreover have "Math_round (fmul (4516768047333567 / 9007199254740992) 360) = 181"
    "Math_round (fmul (2212975678966537 / 2251799813685248) 100) = 98" "Math_round (fmul (8194785204313373 / 18014398509481984) 100) = 45"
    by code_simp+
  ultimately show ?thesis
    by simp
qed

lemma HSLToRGB_181_98_45: "HSLToRGB 181 98 45 = \<lparr>r = 2, g = 223, b = 227\<rparr>"
proof -
  have c0: "channel 0 181 98 45 = fmul 255 (81064793292669 / 9007199254740992)"
    by (rule channel_eval [where ?s1.0 = "2206763817411543 / 2251799813685248" and ?l1.0 = "8106479329266893 / 18014398509481984" and a = "7944349742681555 / 18014398509481984"
          and k = "3396464718975249 / 562949953421312" and w = "1"])
      code_simp+
  have c8: "channel 8 181 98 45 = fmul 255 (1973252176732383 / 2251799813685248)"
    by (rule channel_eval [where ?s1.0 = "2206763817411543 / 2251799813685248" and ?l1.0 = "8106479329266893 / 18014398509481984" and a = "7944349742681555 / 18014398509481984"
          and k = "1144664905290001 / 562949953421312" and w = "(- (544184954973935 / 562949953421312))"])
      code_simp+
  have c4: "channel 4 181 98 45 = fmul 255 (501588408498389 / 562949953421312)"
    by (rule channel_eval [where ?s1.0 = "2206763817411543 / 2251799813685248" and ?l1.0 = "8106479329266893 / 18014398509481984" and a = "7944349742681555 / 18014398509481984"
          and k = "5648264532660497 / 562949953421312" and w = "(- 1)"])
      code_simp+
  have "Math_round (fmul 255 (81064793292669 / 9007199254740992)) = 2" "Math_round (fmul 255 (1973252176732383 / 2251799813685248)) = 223"
    "Math_round (fmul 255 (501588408498389 / 562949953421312)) = 227"
    by code_simp+
  then show ?thesis
    by (simp add: HSLToRGB_channel c0 c8 c4)
qed

text \<open>
  Claim C3, as stated: applying \<open>hslToRgb\<close> to the result of \<open>hexToHsl\<close> applied to
  \<open>rgbToHex(r, g, b)\<close> gives each channel back within 1. It fails: hue, saturation and
  lightness are rounded to whole degrees and whole percents in between. The triple
  (2, 228, 230) is written as \<open>#02e4e6\<close>, read as (181, 98, 45) and converted to
  (2, 223, 227): green is off by 5.
\<close>

theorem roundTrip_within_1_counterexample:
  "RGBToHex 2 228 230 = ''#02e4e6'' \<and>
   hexToHSL ''#02e4e6'' = Some \<lparr>h = 181, s = 98, l = 45\<rparr> \<and>
   roundTrip 2 228 230 = Some \<lparr>r = 2, g = 223, b = 227\<rparr>"
proof -
  have hex: "RGBToHex 2 228 230 = ''#02e4e6''"
    by (simp add: RGBToHex_def toHex_byte hexDigit_def)
  have "hexToHSL (RGBToHex 2 228 230) = Some (RGBToHSL 2 228 230)"
    by (rule hexToHSL_RGBToHex) simp_all
  then have hsl: "hexToHSL ''#02e4e6'' = Some \<lparr>h = 181, s = 98, l = 45\<rparr>"
    unfolding hex RGBToHSL_2_228_230 .
  from hex hsl show ?thesis
    by (simp add: roundTrip_def HSLToRGB_181_98_45)
qed

text \<open>
  Claim C3, amended. For channels between 0 and 255, the round trip gives each channel
  back within 5.
\<close>

theorem roundTrip_within_5:
  assumes cr: "0 \<le> cr \<and> cr \<le> 255" and cg: "0 \<le> cg \<and> cg \<le> 255"
    and cb: "0 \<le> cb \<and> cb \<le> 255"
  shows "\<exists>out. roundTrip cr cg cb = Some out \<and>
           \<bar>r out - cr\<bar> \<le> 5 \<and> \<bar>g out - cg\<bar> \<le> 5 \<and> \<bar>b out - cb\<bar> \<le> 5"
proof -
  define c where "c = RGBToHSL cr cg cb"
  define M where "M = max (max cr cg) cb"
  define m where "m = min (min cr cg) cb"
  have ord: "m \<le> cr \<and> cr \<le> M" "m \<le> cg \<and> cg \<le> M" "m \<le> cb \<and> cb \<le> M"
    by (auto simp: M_def m_def)
  note I = chanExact_id [OF cr cg cb, folded M_def m_def]
  have "\<bar>Math_round (channel 0 (h c) (s c) (l c)) - cr\<bar> \<le> 5"
    unfolding c_def
    by (rule roundtrip_channel [OF cr cg cb]) (simp_all add: ord [unfolded M_def m_def] I [unfolded M_def m_def])
  moreover have "\<bar>Math_round (channel 8 (h c) (s c) (l c)) - cg\<bar> \<le> 5"
    unfolding c_def
    by (rule roundtrip_channel [OF cr cg cb]) (simp_all add: ord [unfolded M_def m_def] I [unfolded M_def m_def])
  moreover have "\<bar>Math_round (channel 4 (h c) (s c) (l c)) - cb\<bar> \<le> 5"
    unfolding c_def
    by (rule roundtrip_channel [OF cr cg cb]) (simp_all add: ord [unfolded M_def m_def] I [unfolded M_def m_def])
  moreover have "roundTrip cr cg cb = Some (HSLToRGB (h c) (s c) (l c))"
    by (simp add: roundTrip_def hexToHSL_RGBToHex [OF cr cg cb] c_def)
  ultimately show ?thesis
    by (simp add: HSLToRGB_channel)
qed

theorem roundTrip_within_5_witness:
  "(0 \<le> (2::int) \<and> (2::int) \<le> 255) \<and> (0 \<le> (228::int) \<and> (228::int) \<le> 255) \<and>
   (0 \<le> (230::int) \<and> (230::int) \<le> 255) \<and>
   (\<exists>out. roundTrip 2 228 230 = Some out \<and>
      \<bar>r out - 2\<bar> \<le> 5 \<and> \<bar>g out - 228\<bar> \<le> 5 \<and> \<bar>b out - 230\<bar> \<le> 5)"
  using roundTrip_within_5 [of 2 228 230] by simp

end
